theory Spec2Isabelle
  imports
    Complex_Main
    "HOL-Library.Word"
    "HOL-Library.Signed_Division"
    "HOL-Library.Log_Nat"
    "HOL-Library.Multiset"
begin

section \<open>Data model\<close>

text \<open>
  Go's \<^verbatim>\<open>time.Duration\<close> is an \<^verbatim>\<open>int64\<close> count of nanoseconds. It is modelled as a
  64-bit word: \<open>+\<close> and \<open>*\<close> wrap as Go's do, \<open>sint\<close> reads the signed value and
  \<open>\<le>s\<close>, \<open><s\<close> are Go's comparisons on it.
\<close>

type_synonym duration = "64 word"

definition Second :: duration where
  "Second = 1000000000"

text \<open>
  \<^verbatim>\<open>fmt.Sprintf\<close> and \<^verbatim>\<open>err.Error()\<close> produce the detail text of a result. The text is
  kept as the format string with its arguments, so that what a detail holds can be read
  off without a model of Go's formatting verbs. An argument that is an error stands for
  the text of that error, which is such a message again.
\<close>

datatype fmt_arg = ArgInt int | ArgStr string | ArgDuration duration | ArgError message
  and message = Text string | Sprintf string "fmt_arg list"

text \<open>
  Go's \<^verbatim>\<open>int\<close> is taken to be 64 bits wide, as on the platforms the program is built for.
  The fields of type \<^verbatim>\<open>int\<close> are integers, of which only those from \<open>- 2 ^ 63\<close> to
  \<open>MaxInt\<close> occur; the one increment of the code that nothing bounds, that of the retry
  counter, has its wrap-around written out.
\<close>

definition MaxInt :: int where
  "MaxInt = 2 ^ 63 - 1"

definition increment :: "int \<Rightarrow> int" where
  "increment n = signed_take_bit 63 (n + 1)"

text \<open>\<^verbatim>\<open>config.Config\<close> (internal/config/config.go).\<close>

record Config =
  Timeout :: duration
  Concurrency :: int
  Retries :: int
  MaxLatency :: duration
  DomainRate :: int
  GlobalRate :: int
  NoColor :: bool
  Verbose :: bool
  Insecure :: bool

definition DefaultConfig :: Config where
  "DefaultConfig =
     \<lparr>Timeout = 30 * Second, Concurrency = 10, Retries = 3, MaxLatency = 30 * Second,
      DomainRate = 5, GlobalRate = 50, NoColor = False, Verbose = False, Insecure = False\<rparr>"

text \<open>\<^verbatim>\<open>checker.CheckResult\<close>. The time stamp is an instant of the clock, an integer.\<close>

record CheckResult =
  URL :: string
  StatusCode :: int
  ResponseTime :: duration
  Latency :: duration
  Error :: string
  ErrorMessage :: message
  Timestamp :: int
  Success :: bool

section \<open>Statistics (internal/stats)\<close>

text \<open>
  \<^verbatim>\<open>SuccessRate\<close> is a \<^verbatim>\<open>float64\<close>. A float64 value is the rational it denotes, and each
  arithmetic operation is the exact operation followed by rounding to the nearest value
  with a 53-bit significand, ties to even. The exponent is not bounded: every value that
  occurs below (a count, a quotient of two counts, its product with 100) lies in the
  range of normal float64 numbers, where this is IEEE 754 arithmetic.
\<close>

type_synonym float64 = rat

definition pow2 :: "int \<Rightarrow> rat" where
  "pow2 e = (if 0 \<le> e then 2 ^ nat e else 1 / 2 ^ nat (- e))"

definition binary_exponent :: "rat \<Rightarrow> int" where
  "binary_exponent a =
     (let (p, q) = quotient_of a; d = bitlen p - bitlen q
      in if pow2 d \<le> a then d else d - 1)"

definition round_half_even :: "rat \<Rightarrow> int" where
  "round_half_even m =
     (let f = \<lfloor>m\<rfloor>; r = m - of_int f
      in if r < 1 / 2 then f else if 1 / 2 < r then f + 1
         else if even f then f else f + 1)"

definition f64_round :: "rat \<Rightarrow> float64" where
  "f64_round x =
     (if x = 0 then 0
      else let a = \<bar>x\<bar>; e = binary_exponent a;
               m = round_half_even (a / pow2 (e - 52))
           in sgn x * of_int m * pow2 (e - 52))"

definition f64_of_int :: "int \<Rightarrow> float64" where
  "f64_of_int n = f64_round (of_int n)"

definition f64_div :: "float64 \<Rightarrow> float64 \<Rightarrow> float64" where
  "f64_div a b = f64_round (a / b)"

definition f64_mul :: "float64 \<Rightarrow> float64 \<Rightarrow> float64" where
  "f64_mul a b = f64_round (a * b)"

text \<open>
  Division of two durations is Go's integer division on \<^verbatim>\<open>int64\<close>: it truncates
  toward zero.
\<close>

definition duration_div :: "duration \<Rightarrow> duration \<Rightarrow> duration" where
  "duration_div a b = word_of_int (sint a sdiv sint b)"

text \<open>\<^verbatim>\<open>stats.Statistics\<close>. Its field \<^verbatim>\<open>MaxLatency\<close> is \<open>MaxLatency_stats\<close> here,
  the name being taken by the configuration's field.\<close>

record Statistics =
  TotalRequests :: int
  SuccessCount :: int
  FailureCount :: int
  SuccessRate :: float64
  AvgResponseTime :: duration
  MinResponseTime :: duration
  MaxResponseTime :: duration
  AvgLatency :: duration
  MinLatency :: duration
  MaxLatency_stats :: duration
  TotalDuration :: duration

definition zero_Statistics :: Statistics where
  "zero_Statistics =
     \<lparr>TotalRequests = 0, SuccessCount = 0, FailureCount = 0, SuccessRate = 0,
      AvgResponseTime = 0, MinResponseTime = 0, MaxResponseTime = 0,
      AvgLatency = 0, MinLatency = 0, MaxLatency_stats = 0, TotalDuration = 0\<rparr>"

text \<open>
  The slice holds pointers: an element is \<open>None\<close> for a nil pointer, and reading a field
  through it panics. The other panic of the code modelled is that of \<^verbatim>\<open>make\<close> for a
  channel of negative capacity.
\<close>

datatype panic = NilPointerDereference | MakeChanSizeOutOfRange

text \<open>The local variables of \<^verbatim>\<open>CalculateStatistics\<close> that its first loop updates.\<close>

record stats_locals =
  stats :: Statistics
  totalResponseTime :: duration
  totalLatency :: duration
  successResponseTimes :: "duration list"
  successLatencies :: "duration list"

definition count_result :: "stats_locals \<Rightarrow> CheckResult \<Rightarrow> stats_locals" where
  "count_result l result =
     (if Success result then
        l\<lparr>stats := (stats l)\<lparr>SuccessCount := SuccessCount (stats l) + 1\<rparr>,
          successResponseTimes := successResponseTimes l @ [ResponseTime result],
          successLatencies := successLatencies l @ [Latency result],
          totalResponseTime := totalResponseTime l + ResponseTime result,
          totalLatency := totalLatency l + Latency result\<rparr>
      else l\<lparr>stats := (stats l)\<lparr>FailureCount := FailureCount (stats l) + 1\<rparr>\<rparr>)"

fun count_results :: "CheckResult option list \<Rightarrow> stats_locals \<Rightarrow> panic + stats_locals" where
  "count_results [] l = Inr l"
| "count_results (None # results) l = Inl NilPointerDereference"
| "count_results (Some result # results) l = count_results results (count_result l result)"

text \<open>The two inner loops: the running minimum and maximum, by the signed comparison.\<close>

fun min_loop :: "duration list \<Rightarrow> duration \<Rightarrow> duration" where
  "min_loop [] m = m"
| "min_loop (rt # rts) m = min_loop rts (if rt <s m then rt else m)"

fun max_loop :: "duration list \<Rightarrow> duration \<Rightarrow> duration" where
  "max_loop [] m = m"
| "max_loop (rt # rts) m = max_loop rts (if m <s rt then rt else m)"

definition response_time_stats :: "stats_locals \<Rightarrow> Statistics \<Rightarrow> Statistics" where
  "response_time_stats l s =
     (case successResponseTimes l of
        [] \<Rightarrow> s
      | rt0 # _ \<Rightarrow>
          s\<lparr>AvgResponseTime :=
               duration_div (totalResponseTime l) (of_nat (length (successResponseTimes l))),
            MinResponseTime := min_loop (successResponseTimes l) rt0,
            MaxResponseTime := max_loop (successResponseTimes l) rt0\<rparr>)"

definition latency_stats :: "stats_locals \<Rightarrow> Statistics \<Rightarrow> Statistics" where
  "latency_stats l s =
     (case successLatencies l of
        [] \<Rightarrow> s
      | lat0 # _ \<Rightarrow>
          s\<lparr>AvgLatency :=
               duration_div (totalLatency l) (of_nat (length (successLatencies l))),
            MinLatency := min_loop (successLatencies l) lat0,
            MaxLatency_stats := max_loop (successLatencies l) lat0\<rparr>)"

definition success_rate :: "Statistics \<Rightarrow> Statistics" where
  "success_rate s =
     (if 0 < TotalRequests s then
        s\<lparr>SuccessRate :=
            f64_mul (f64_div (f64_of_int (SuccessCount s)) (f64_of_int (TotalRequests s))) 100\<rparr>
      else s)"

definition CalculateStatistics ::
  "CheckResult option list \<Rightarrow> duration \<Rightarrow> panic + Statistics" where
  "CalculateStatistics results totalDuration =
     (if length results = 0 then Inr zero_Statistics
      else
        case count_results results
               \<lparr>stats = zero_Statistics\<lparr>TotalRequests := int (length results),
                                          TotalDuration := totalDuration\<rparr>,
                totalResponseTime = 0, totalLatency = 0,
                successResponseTimes = [], successLatencies = []\<rparr> of
          Inl p \<Rightarrow> Inl p
        | Inr l \<Rightarrow> Inr (latency_stats l (response_time_stats l (success_rate (stats l)))))"

section \<open>The rate limiter (internal/checker)\<close>

text \<open>
  \<^verbatim>\<open>rateLimiter\<close>: the limit and the counter. Every access to the counter is made with the
  limiter's mutex held, so concurrent calls of \<^verbatim>\<open>allow\<close> and the resets of the ticker
  goroutine take effect one at a time, in some order: a run of the limiter is a list of
  operations, \<open>Allow\<close> for a call of \<^verbatim>\<open>allow\<close> by any goroutine and \<open>Tick\<close> for one
  iteration of \<^verbatim>\<open>resetCounter\<close>. The counter never exceeds the limit, a Go \<^verbatim>\<open>int\<close>, so its
  increment does not overflow.
\<close>

record rateLimiter =
  limit :: int
  count :: int

definition newRateLimiter :: "int \<Rightarrow> rateLimiter" where
  "newRateLimiter l = \<lparr>limit = l, count = 0\<rparr>"

definition resetCounter :: "rateLimiter \<Rightarrow> rateLimiter" where
  "resetCounter rl = rl\<lparr>count := 0\<rparr>"

definition allow :: "rateLimiter \<Rightarrow> rateLimiter \<times> bool" where
  "allow rl = (if count rl < limit rl then (rl\<lparr>count := count rl + 1\<rparr>, True) else (rl, False))"

datatype limiter_op = Allow | Tick

datatype outcome = Granted | Denied | Reset

fun serve :: "rateLimiter \<Rightarrow> limiter_op list \<Rightarrow> rateLimiter \<times> outcome list" where
  "serve rl [] = (rl, [])"
| "serve rl (Tick # ops) =
     (let (rl', outcomes) = serve (resetCounter rl) ops in (rl', Reset # outcomes))"
| "serve rl (Allow # ops) =
     (let (rl1, ok) = allow rl;
          (rl', outcomes) = serve rl1 ops
      in (rl', (if ok then Granted else Denied) # outcomes))"

text \<open>
  The windows of a run are the stretches between two resets. \<open>window_grants 0\<close> lists
  the number of permits granted in each window, the current one last.
\<close>

fun window_grants :: "nat \<Rightarrow> outcome list \<Rightarrow> nat list" where
  "window_grants g [] = [g]"
| "window_grants g (Reset # outcomes) = g # window_grants 0 outcomes"
| "window_grants g (Granted # outcomes) = window_grants (Suc g) outcomes"
| "window_grants g (Denied # outcomes) = window_grants g outcomes"

definition granted_in_window :: "outcome list \<Rightarrow> nat" where
  "granted_in_window outcomes = last (window_grants 0 outcomes)"

text \<open>
  \<^verbatim>\<open>waitForRateLimit\<close> polls \<^verbatim>\<open>allow\<close> until it grants, sleeping 100 ms after every denial.
  Between two polls the other users of the limiter act on it: \<open>others k\<close> lists the
  operations (calls of \<^verbatim>\<open>allow\<close> by other goroutines, resets of the ticker) that take effect
  before poll \<open>k\<close> of this call and after the poll before it. The loop need not end: the
  value is \<open>None\<close> when no poll is ever granted, and else the limiter as the granted poll
  leaves it with the number of denials.
\<close>

partial_function (option) waitForRateLimit ::
  "rateLimiter \<Rightarrow> (nat \<Rightarrow> limiter_op list) \<Rightarrow> nat \<Rightarrow> (rateLimiter \<times> nat) option" where
  "waitForRateLimit rl others k =
     (let (rl', ok) = allow (fst (serve rl (others k)))
      in if ok then Some (rl', k) else waitForRateLimit rl' others (Suc k))"

declare waitForRateLimit.simps [code]

section \<open>The checker (internal/checker)\<close>

subsection \<open>What a check does to the outside world\<close>

text \<open>
  A check waits for permits, resolves a host name, sends requests and sleeps. Each of
  these is an event; a function of the checker returns, besides its result, the events
  it caused, in order. \<open>CallCheckURL\<close> marks a call of \<^verbatim>\<open>CheckURL\<close> by the retry loop.
\<close>

datatype limiter_id = Global | Domain string

datatype event =
    WaitForRateLimit limiter_id
  | LookupHost string
  | HttpGet string
  | Sleep duration
  | CallCheckURL string

subsection \<open>The HTTP client and its redirect policy\<close>

text \<open>
  The answer to one request: a final response (status code and status text), a redirect
  to a location, or a transport error (connection failure, deadline exceeded, ...) with
  the text of the error that \<^verbatim>\<open>Do\<close> returns for it.
\<close>

datatype reply = Response int string | Redirect string | TransportError string

text \<open>
  The \<^verbatim>\<open>CheckRedirect\<close> function that \<^verbatim>\<open>NewChecker\<close> installs, on the length of \<^verbatim>\<open>via\<close>.
\<close>

definition CheckRedirect :: "nat \<Rightarrow> string option" where
  "CheckRedirect via = (if 3 \<le> via then Some ''stopped after 3 redirects'' else None)"

text \<open>
  \<^verbatim>\<open>Do\<close> returns an error of the redirect policy wrapped in a \<^verbatim>\<open>*url.Error\<close> whose
  operation is the method of the first request (\<^verbatim>\<open>Get\<close>) and whose URL is the location
  refused; the text of a \<^verbatim>\<open>*url.Error\<close> is \<^verbatim>\<open>fmt.Sprintf("%s %q: %s", e.Op, e.URL, e.Err)\<close>.
\<close>

definition url_Error :: "string \<Rightarrow> string \<Rightarrow> string \<Rightarrow> message" where
  "url_Error op url err = Sprintf ''%s %q: %s'' [ArgStr op, ArgStr url, ArgError (Text err)]"

text \<open>
  \<^verbatim>\<open>http.Client.Do\<close> of Go's standard library, as far as redirects go: before following
  a redirect the client calls \<^verbatim>\<open>CheckRedirect\<close> with the upcoming request and \<^verbatim>\<open>via\<close>, the
  requests made already, oldest first (so \<^verbatim>\<open>via\<close> holds the original request too), and an
  error of the policy ends the call with that error. \<open>server k\<close> is the answer to the
  request sent after \<open>k\<close> others; \<open>reqs\<close> counts the requests made already. The function
  returns the outcome of the call (the text of the error, or the status code and status
  text of the response) and the URLs requested.
\<close>

function clientDo :: "(nat \<Rightarrow> reply) \<Rightarrow> string \<Rightarrow> nat \<Rightarrow> (message + int \<times> string) \<times> string list" where
  "clientDo server url reqs =
     (case server reqs of
        Response code status \<Rightarrow> (Inr (code, status), [url])
      | TransportError err \<Rightarrow> (Inl (Text err), [url])
      | Redirect loc \<Rightarrow>
          (case CheckRedirect (Suc reqs) of
             Some err \<Rightarrow> (Inl (url_Error ''Get'' loc err), [url])
           | None \<Rightarrow>
               (let (outcome, urls) = clientDo server loc (Suc reqs)
                in (outcome, url # urls))))"
  by pat_completeness auto
termination
  by (relation "measure (\<lambda>(server, url, reqs). 3 - reqs)")
    (auto simp: CheckRedirect_def split: if_splits)

declare clientDo.simps [simp del]

subsection \<open>One attempt: CheckURL\<close>

text \<open>
  What the environment yields during one call of \<^verbatim>\<open>CheckURL\<close>: the clock at entry, the
  outcome of \<^verbatim>\<open>url.Parse\<close> (an error text, or the host name of the parsed URL), what the
  other users of the global limiter and of the limiter of the domain do to it (before
  poll 0: since the limiter was made), whether \<^verbatim>\<open>net.LookupHost\<close> failed and how long it
  took, the outcome of building the request, the answers of the network, and the time
  \<^verbatim>\<open>httpClient.Do\<close> took.
\<close>

record attempt =
  clock :: int
  url_Parse :: "string + string"
  globalRateOps :: "nat \<Rightarrow> limiter_op list"
  domainRateOps :: "nat \<Rightarrow> limiter_op list"
  dnsFailed :: bool
  dnsDuration :: duration
  newRequest :: "string option"
  server :: "nat \<Rightarrow> reply"
  responseTime :: duration

text \<open>
  The two calls of \<^verbatim>\<open>waitForRateLimit\<close>, on the global limiter that \<^verbatim>\<open>NewChecker\<close> makes with
  the limit \<^verbatim>\<open>GlobalRate\<close> and on the limiter that \<^verbatim>\<open>getDomainRateLimiter\<close> makes with the
  limit \<^verbatim>\<open>DomainRate\<close>. The value is \<open>None\<close> when one of them polls for ever.
\<close>

definition waitForRateLimits :: "Config \<Rightarrow> attempt \<Rightarrow> unit option" where
  "waitForRateLimits cfg obs =
     (case waitForRateLimit (newRateLimiter (GlobalRate cfg)) (globalRateOps obs) 0 of
        None \<Rightarrow> None
      | Some granted \<Rightarrow>
          (case waitForRateLimit (newRateLimiter (DomainRate cfg)) (domainRateOps obs) 0 of
             None \<Rightarrow> None
           | Some granted \<Rightarrow> Some ()))"

text \<open>
  \<open>CheckURL\<close> is the result of a call and the events it causes, the two waits being
  recorded as events; \<open>CheckURL_call\<close> below is the call itself, which returns that
  result unless one of its waits polls for ever.
\<close>

definition CheckURL :: "Config \<Rightarrow> attempt \<Rightarrow> string \<Rightarrow> CheckResult \<times> event list" where
  "CheckURL cfg obs targetURL =
     (let result = \<lparr>URL = targetURL, StatusCode = 0, ResponseTime = 0, Latency = 0,
                     Error = [], ErrorMessage = Text [], Timestamp = clock obs,
                     Success = False\<rparr>
      in case url_Parse obs of
           Inl err \<Rightarrow>
             (result\<lparr>Error := ''invalid_url'',
                     ErrorMessage := Sprintf ''URL parse error: %v'' [ArgError (Text err)]\<rparr>,
              [])
         | Inr domain \<Rightarrow>
             (let before = [WaitForRateLimit Global, WaitForRateLimit (Domain domain),
                            LookupHost domain]
              in case newRequest obs of
                   Some err \<Rightarrow>
                     (result\<lparr>Error := ''request_error'',
                             ErrorMessage :=
                               Sprintf ''Request creation error: %v'' [ArgError (Text err)]\<rparr>,
                      before)
                 | None \<Rightarrow>
                     (let (resp, urls) = clientDo (server obs) targetURL 0;
                          events = before @ map HttpGet urls;
                          result = result\<lparr>Latency := dnsDuration obs + responseTime obs\<rparr>
                      in case resp of
                           Inl err \<Rightarrow>
                             (if MaxLatency cfg \<le>s responseTime obs then
                                (result\<lparr>Error := ''timeout'',
                                        ErrorMessage :=
                                          Sprintf ''Response time exceeded %v: %v''
                                            [ArgDuration (MaxLatency cfg), ArgError err]\<rparr>,
                                 events)
                              else
                                (result\<lparr>Error := ''request_failed'',
                                        ErrorMessage := err\<rparr>, events))
                         | Inr (code, status) \<Rightarrow>
                             (if MaxLatency cfg <s responseTime obs then
                                (result\<lparr>StatusCode := code,
                                        ResponseTime := responseTime obs,
                                        Error := ''timeout'',
                                        ErrorMessage :=
                                          Sprintf ''Response time %v exceeded maximum %v''
                                            [ArgDuration (responseTime obs),
                                             ArgDuration (MaxLatency cfg)]\<rparr>,
                                 events)
                              else
                                (let result =
                                       result\<lparr>StatusCode := code,
                                              ResponseTime := responseTime obs,
                                              Success := (200 \<le> code \<and> code < 300)\<rparr>
                                 in if \<not> Success result then
                                      (result\<lparr>Error := ''http_error'',
                                              ErrorMessage :=
                                                Sprintf ''HTTP %d: %s''
                                                  [ArgInt code, ArgStr status]\<rparr>,
                                       events)
                                    else (result, events))))))"

definition CheckURL_call ::
  "Config \<Rightarrow> attempt \<Rightarrow> string \<Rightarrow> (CheckResult \<times> event list) option" where
  "CheckURL_call cfg obs targetURL =
     (case url_Parse obs of
        Inl err \<Rightarrow> Some (CheckURL cfg obs targetURL)
      | Inr domain \<Rightarrow>
          (case waitForRateLimits cfg obs of
             None \<Rightarrow> None
           | Some u \<Rightarrow> Some (CheckURL cfg obs targetURL)))"

subsection \<open>The retry loop: CheckURLWithRetry\<close>

text \<open>
  \<open>env k\<close> is what the environment yields during the call of \<^verbatim>\<open>CheckURL\<close> made after
  \<open>k\<close> others; \<open>made\<close> counts the calls made. The loop variable \<^verbatim>\<open>result\<close> starts as the
  nil pointer, \<open>None\<close>. The counter \<^verbatim>\<open>attempt\<close> is a Go \<^verbatim>\<open>int\<close> and its increment wraps.
  The loop need not end: the value is \<open>None\<close> when a call of \<^verbatim>\<open>CheckURL\<close> does not return
  or when the loop goes round for ever.
\<close>

partial_function (option) retry_loop ::
  "Config \<Rightarrow> (nat \<Rightarrow> attempt) \<Rightarrow> string \<Rightarrow> int \<Rightarrow> nat \<Rightarrow> duration \<Rightarrow> CheckResult option
     \<Rightarrow> event list \<Rightarrow> (CheckResult option \<times> event list) option" where
  "retry_loop cfg env targetURL attempt made backoff result events =
     (if attempt \<le> Retries cfg then
        (let slept = (if 0 < attempt then events @ [Sleep backoff] else events);
             backoff = (if 0 < attempt then backoff * 2 else backoff)
         in case CheckURL_call cfg (env made) targetURL of
              None \<Rightarrow> None
            | Some (r, caused) \<Rightarrow>
                (let events = slept @ [CallCheckURL targetURL] @ caused
                 in if Success r \<or> (Error r \<noteq> ''timeout'' \<and> Error r \<noteq> ''request_failed'')
                    then Some (Some r, events)
                    else retry_loop cfg env targetURL (increment attempt) (Suc made) backoff
                           (Some r) events))
      else Some (result, events))"

declare retry_loop.simps [code]

definition CheckURLWithRetry ::
  "Config \<Rightarrow> (nat \<Rightarrow> attempt) \<Rightarrow> string \<Rightarrow> (CheckResult option \<times> event list) option" where
  "CheckURLWithRetry cfg env targetURL = retry_loop cfg env targetURL 0 0 Second None []"

section \<open>The collection of the results (internal/web)\<close>

text \<open>
  The handlers of the web server receive from the result channel until it is closed and
  append every value received to a slice, which they pass to \<^verbatim>\<open>CalculateStatistics\<close>:
  \<^verbatim>\<open>for result := range resultChan { results = append(results, result) }\<close>. \<open>received\<close>
  lists the values received.
\<close>

fun collect :: "CheckResult option list \<Rightarrow> CheckResult option list \<Rightarrow> panic + CheckResult option list" where
  "collect [] results = Inr results"
| "collect (result # received) results = collect received (results @ [result])"

definition collect_and_summarize ::
  "CheckResult option list \<Rightarrow> duration \<Rightarrow> panic + CheckResult option list \<times> Statistics" where
  "collect_and_summarize received totalDuration =
     (case collect received [] of
        Inl p \<Rightarrow> Inl p
      | Inr results \<Rightarrow>
          (case CalculateStatistics results totalDuration of
             Inl p \<Rightarrow> Inl p
           | Inr statistics \<Rightarrow> Inr (results, statistics)))"

section \<open>The dispatcher: CheckURLs\<close>

text \<open>
  \<^verbatim>\<open>CheckURLs\<close> starts one goroutine per URL and waits for all of them. The model is an
  interleaving of atomic steps: the state holds where the calling goroutine is
  (\<open>main\<close>), where every goroutine started so far is (\<open>goroutines\<close>, in the order of the
  URLs), the number of elements in the buffer of the semaphore channel, the counter
  \<^verbatim>\<open>completed\<close> and whether its mutex is held, and the values sent so far on the two
  channels of the caller with whether each has been closed.

  A goroutine is, in the order of its code: at the send on the semaphore, at the call of
  \<^verbatim>\<open>CheckURLWithRetry\<close>, at the send of the result, at \<^verbatim>\<open>Lock\<close>, at the increment, at
  the send of the progress value, at \<^verbatim>\<open>Unlock\<close>, at the deferred receive from the semaphore,
  at the deferred \<^verbatim>\<open>wg.Done\<close>, or gone.
\<close>

datatype pc =
    AtSemaphore | AtCheck | AtSend | AtLock | AtIncrement | AtProgress | AtUnlock
  | AtRelease | AtDone | Exited

datatype main_pc = Spawning | ClosingResults | ClosingProgress | Returned

text \<open>
  A batch: the configuration, the URLs, what the environment yields to the call number
  \<open>k\<close> of \<^verbatim>\<open>CheckURL\<close> in the check of URL \<open>i\<close> (\<open>envs i k\<close>), whether the caller passed a
  progress channel (\<^verbatim>\<open>progressChan != nil\<close>), and what the caller's channels do with a
  send: \<open>resultAccepted k\<close> says that the send made after \<open>k\<close> others on the result
  channel is accepted in the end (there is room in the buffer, or a receiver takes the
  value), and \<open>progressAccepted k\<close> the same of the progress channel; a send that is not
  accepted blocks for ever. \<open>task i\<close> is the call of \<^verbatim>\<open>CheckURLWithRetry\<close> for URL \<open>i\<close>
  and \<open>task_result i\<close> its result, when it returns.
\<close>

record batch =
  config :: Config
  urls :: "string list"
  envs :: "nat \<Rightarrow> nat \<Rightarrow> attempt"
  progressWanted :: bool
  resultAccepted :: "nat \<Rightarrow> bool"
  progressAccepted :: "nat \<Rightarrow> bool"

record dispatcher =
  main :: main_pc
  goroutines :: "pc list"
  semaphore :: nat
  completed :: int
  completedMutex :: bool
  resultChan :: "CheckResult option list"
  progressChan :: "int list"
  resultClosed :: bool
  progressClosed :: bool

definition task :: "batch \<Rightarrow> nat \<Rightarrow> (CheckResult option \<times> event list) option" where
  "task b i = CheckURLWithRetry (config b) (envs b i) (urls b ! i)"

definition task_result :: "batch \<Rightarrow> nat \<Rightarrow> CheckResult option option" where
  "task_result b i = map_option fst (task b i)"

definition CheckURLs_start :: "batch \<Rightarrow> panic + dispatcher" where
  "CheckURLs_start b =
     (if Concurrency (config b) < 0 then Inl MakeChanSizeOutOfRange
      else Inr \<lparr>main = Spawning, goroutines = [], semaphore = 0, completed = 0,
                completedMutex = False, resultChan = [], progressChan = [],
                resultClosed = False, progressClosed = False\<rparr>)"

text \<open>
  One step of goroutine \<open>i\<close>, or \<open>None\<close> when it cannot move: the send on the
  semaphore needs room in the buffer (with capacity 0 it needs a receiver, and the only
  receives are the deferred ones of goroutines that got past this send), the call of
  \<^verbatim>\<open>CheckURLWithRetry\<close> is one step when it returns and none when it does not, a send on
  a channel of the caller needs to be accepted, and \<^verbatim>\<open>Lock\<close> needs the mutex free.
\<close>

definition goroutine_step :: "batch \<Rightarrow> nat \<Rightarrow> dispatcher \<Rightarrow> dispatcher option" where
  "goroutine_step b i s =
     (if length (goroutines s) \<le> i then None
      else
        case goroutines s ! i of
          AtSemaphore \<Rightarrow>
            if int (semaphore s) < Concurrency (config b)
            then Some (s\<lparr>goroutines := (goroutines s)[i := AtCheck],
                         semaphore := Suc (semaphore s)\<rparr>)
            else None
        | AtCheck \<Rightarrow>
            (case task b i of
               None \<Rightarrow> None
             | Some returned \<Rightarrow> Some (s\<lparr>goroutines := (goroutines s)[i := AtSend]\<rparr>))
        | AtSend \<Rightarrow>
            (case task_result b i of
               None \<Rightarrow> None
             | Some result \<Rightarrow>
                 if resultAccepted b (length (resultChan s))
                 then Some (s\<lparr>goroutines := (goroutines s)[i := AtLock],
                              resultChan := resultChan s @ [result]\<rparr>)
                 else None)
        | AtLock \<Rightarrow>
            if completedMutex s then None
            else Some (s\<lparr>goroutines := (goroutines s)[i := AtIncrement],
                         completedMutex := True\<rparr>)
        | AtIncrement \<Rightarrow>
            Some (s\<lparr>goroutines := (goroutines s)[i := AtProgress],
                    completed := completed s + 1\<rparr>)
        | AtProgress \<Rightarrow>
            if progressWanted b then
              if progressAccepted b (length (progressChan s))
              then Some (s\<lparr>goroutines := (goroutines s)[i := AtUnlock],
                           progressChan := progressChan s @ [completed s]\<rparr>)
              else None
            else Some (s\<lparr>goroutines := (goroutines s)[i := AtUnlock]\<rparr>)
        | AtUnlock \<Rightarrow>
            Some (s\<lparr>goroutines := (goroutines s)[i := AtRelease],
                    completedMutex := False\<rparr>)
        | AtRelease \<Rightarrow>
            Some (s\<lparr>goroutines := (goroutines s)[i := AtDone],
                    semaphore := semaphore s - 1\<rparr>)
        | AtDone \<Rightarrow> Some (s\<lparr>goroutines := (goroutines s)[i := Exited]\<rparr>)
        | Exited \<Rightarrow> None)"

text \<open>
  One step of the calling goroutine: an iteration of the \<^verbatim>\<open>for\<close> loop (\<^verbatim>\<open>wg.Add(1)\<close> and
  the \<^verbatim>\<open>go\<close> statement), then \<^verbatim>\<open>wg.Wait()\<close>, which returns once every goroutine started
  is gone, then the two \<^verbatim>\<open>close\<close> statements.
\<close>

definition main_step :: "batch \<Rightarrow> dispatcher \<Rightarrow> dispatcher option" where
  "main_step b s =
     (case main s of
        Spawning \<Rightarrow>
          if length (goroutines s) < length (urls b)
          then Some (s\<lparr>goroutines := goroutines s @ [AtSemaphore]\<rparr>)
          else if list_all (\<lambda>pc. pc = Exited) (goroutines s)
          then Some (s\<lparr>main := ClosingResults\<rparr>)
          else None
      | ClosingResults \<Rightarrow> Some (s\<lparr>resultClosed := True, main := ClosingProgress\<rparr>)
      | ClosingProgress \<Rightarrow>
          Some ((if progressWanted b then s\<lparr>progressClosed := True\<rparr> else s)
                  \<lparr>main := Returned\<rparr>)
      | Returned \<Rightarrow> None)"

text \<open>
  A scheduler picks which goroutine moves next. \<open>run\<close> follows a schedule and is
  \<open>None\<close> when the schedule picks a goroutine that cannot move; \<open>enabled\<close> lists the
  choices that can. \<^verbatim>\<open>CheckURLs\<close> panics at once when the concurrency is negative.
\<close>

datatype choice = Main | Goroutine nat

fun step :: "batch \<Rightarrow> choice \<Rightarrow> dispatcher \<Rightarrow> dispatcher option" where
  "step b Main s = main_step b s"
| "step b (Goroutine i) s = goroutine_step b i s"

fun run :: "batch \<Rightarrow> choice list \<Rightarrow> dispatcher \<Rightarrow> dispatcher option" where
  "run b [] s = Some s"
| "run b (c # cs) s = (case step b c s of None \<Rightarrow> None | Some s' \<Rightarrow> run b cs s')"

definition CheckURLs :: "batch \<Rightarrow> choice list \<Rightarrow> panic + dispatcher option" where
  "CheckURLs b schedule =
     (case CheckURLs_start b of Inl p \<Rightarrow> Inl p | Inr s \<Rightarrow> Inr (run b schedule s))"

definition enabled :: "batch \<Rightarrow> dispatcher \<Rightarrow> choice list" where
  "enabled b s =
     filter (\<lambda>c. step b c s \<noteq> None) (Main # map Goroutine [0..<length (goroutines s)])"

section \<open>Notions of the specification\<close>

subsection \<open>Retry policy\<close>

text \<open>
  A result is retried when it is a failure of kind \<open>timeout\<close> or \<open>request_failed\<close>.
  \<open>attempt_result k\<close> is the result of attempt \<open>k\<close> (the first attempt is attempt 0),
  \<open>backoff_delay k\<close> the delay slept before attempt \<open>k + 1\<close>: one second, doubled \<open>k\<close>
  times in \<^verbatim>\<open>int64\<close> nanoseconds. \<open>attempt_events k\<close> is what attempt \<open>k\<close> adds to the
  events of the call: the sleep before it (none before the first attempt), the call, and
  the events of the check. \<open>sleeps\<close> and \<open>calls\<close> read the delays slept and the number
  of attempts off the events. \<open>quiet\<close> is what happens to a limiter that nobody else
  uses and whose ticker has not fired: nothing. \<open>timeout_attempt\<close> is an attempt that
  ends in a transport error when 30 seconds have passed.
\<close>

definition retryable :: "CheckResult \<Rightarrow> bool" where
  "retryable r = (\<not> Success r \<and> (Error r = ''timeout'' \<or> Error r = ''request_failed''))"

definition attempt_result :: "Config \<Rightarrow> (nat \<Rightarrow> attempt) \<Rightarrow> string \<Rightarrow> nat \<Rightarrow> CheckResult" where
  "attempt_result cfg env targetURL k = fst (CheckURL cfg (env k) targetURL)"

definition backoff_delay :: "nat \<Rightarrow> duration" where
  "backoff_delay k = Second * 2 ^ k"

definition attempt_events :: "Config \<Rightarrow> (nat \<Rightarrow> attempt) \<Rightarrow> string \<Rightarrow> nat \<Rightarrow> event list" where
  "attempt_events cfg env targetURL k =
     (if 0 < k then [Sleep (backoff_delay (k - 1))] else [])
       @ [CallCheckURL targetURL] @ snd (CheckURL cfg (env k) targetURL)"

fun sleeps :: "event list \<Rightarrow> duration list" where
  "sleeps [] = []"
| "sleeps (Sleep d # es) = d # sleeps es"
| "sleeps (e # es) = sleeps es"

fun calls :: "event list \<Rightarrow> nat" where
  "calls [] = 0"
| "calls (CallCheckURL u # es) = Suc (calls es)"
| "calls (e # es) = calls es"

definition quiet :: "nat \<Rightarrow> limiter_op list" where
  "quiet k = []"

definition timeout_attempt :: attempt where
  "timeout_attempt =
     \<lparr>clock = 0, url_Parse = Inr ''example.com'', globalRateOps = quiet,
      domainRateOps = quiet, dnsFailed = False,
      dnsDuration = 20000000, newRequest = None,
      server = (\<lambda>k. TransportError ''context deadline exceeded''),
      responseTime = 30 * Second\<rparr>"

subsection \<open>Redirects\<close>

text \<open>The redirects followed in a call of the client: the requests sent after the first.\<close>

definition is_redirect :: "reply \<Rightarrow> bool" where
  "is_redirect r = (case r of Redirect loc \<Rightarrow> True | _ \<Rightarrow> False)"

definition redirects_followed :: "(nat \<Rightarrow> reply) \<Rightarrow> string \<Rightarrow> nat" where
  "redirects_followed srv url = length (snd (clientDo srv url 0)) - 1"

text \<open>
  A chain of \<open>n\<close> redirects: the request sent after \<open>k\<close> others is redirected to
  \<open>hop k\<close> as long as \<open>k < n\<close>, and the request after them is answered 200.
\<close>

definition hop :: "nat \<Rightarrow> string" where
  "hop k = ''https://example.com/'' @ replicate (Suc k) CHR ''a''"

definition chain :: "nat \<Rightarrow> nat \<Rightarrow> reply" where
  "chain n k = (if k < n then Redirect (hop k) else Response 200 ''200 OK'')"

subsection \<open>Concrete environments\<close>

text \<open>
  An attempt on a URL that parses, whose host does not resolve and whose every request
  gets the same answer after a given time; and an attempt on a malformed URL.
\<close>

definition answer :: "reply \<Rightarrow> duration \<Rightarrow> attempt" where
  "answer reply rt =
     \<lparr>clock = 0, url_Parse = Inr ''example.com'', globalRateOps = quiet,
      domainRateOps = quiet, dnsFailed = True,
      dnsDuration = 20000000, newRequest = None, server = (\<lambda>k. reply),
      responseTime = rt\<rparr>"

definition malformed :: attempt where
  "malformed =
     \<lparr>clock = 0, url_Parse = Inl ''first path segment in URL cannot contain colon'',
      globalRateOps = quiet, domainRateOps = quiet, dnsFailed = False, dnsDuration = 0, newRequest = None,
      server = (\<lambda>k. Response 200 ''200 OK''), responseTime = 0\<rparr>"

subsection \<open>Progress of a batch\<close>

text \<open>
  \<open>rank\<close> numbers the places of a goroutine in the order of its code, and
  \<open>at_least n\<close> counts the goroutines at place \<open>n\<close> or later; \<open>senders\<close> lists the
  goroutines that have sent their result. \<open>remaining\<close> is the number
  of steps a batch still has to take. \<open>invariant\<close> relates the shared state to the
  places of the goroutines. \<open>all_done\<close> says that every goroutine of the batch is gone,
  one result per URL was sent and the progress values sent are 1, 2, ..., N.
  \<open>observe\<close> is what a caller sees of a state: where the call is, which goroutines can
  move, the number of results sent, the progress values sent, and which channels are
  closed. \<open>observations\<close> lists this for the state at the start and after every step of a
  schedule.
\<close>

fun rank :: "pc \<Rightarrow> nat" where
  "rank AtSemaphore = 0"
| "rank AtCheck = 1"
| "rank AtSend = 2"
| "rank AtLock = 3"
| "rank AtIncrement = 4"
| "rank AtProgress = 5"
| "rank AtUnlock = 6"
| "rank AtRelease = 7"
| "rank AtDone = 8"
| "rank Exited = 9"

definition at_least :: "nat \<Rightarrow> pc list \<Rightarrow> nat" where
  "at_least n gs = length (filter (\<lambda>pc. n \<le> rank pc) gs)"

definition senders :: "pc list \<Rightarrow> nat list" where
  "senders gs = filter (\<lambda>i. 3 \<le> rank (gs ! i)) [0..<length gs]"

definition steps_left :: "main_pc \<Rightarrow> nat" where
  "steps_left m = (case m of Spawning \<Rightarrow> 3 | ClosingResults \<Rightarrow> 2 | ClosingProgress \<Rightarrow> 1 | Returned \<Rightarrow> 0)"

definition remaining :: "batch \<Rightarrow> dispatcher \<Rightarrow> nat" where
  "remaining b s =
     steps_left (main s) + sum_list (map (\<lambda>pc. 9 - rank pc) (goroutines s))
       + 10 * (length (urls b) - length (goroutines s))"

definition invariant :: "batch \<Rightarrow> dispatcher \<Rightarrow> bool" where
  "invariant b s =
     (length (goroutines s) \<le> length (urls b)
      \<and> semaphore s + at_least 8 (goroutines s) = at_least 1 (goroutines s)
      \<and> at_least 4 (goroutines s)
          = at_least 7 (goroutines s) + (if completedMutex s then 1 else 0)
      \<and> completed s = int (at_least 5 (goroutines s))
      \<and> length (resultChan s) = at_least 3 (goroutines s)
      \<and> Some ` set (resultChan s) \<subseteq> task_result b ` {..<length (urls b)}
      \<and> mset (map Some (resultChan s))
          = image_mset (task_result b) (mset (senders (goroutines s)))
      \<and> progressChan s
          = (if progressWanted b then map int [1..<Suc (at_least 6 (goroutines s))] else [])
      \<and> (main s = Spawning
           \<or> length (goroutines s) = length (urls b) \<and> at_least 9 (goroutines s) = length (urls b))
      \<and> (resultClosed s \<longleftrightarrow> main s = ClosingProgress \<or> main s = Returned)
      \<and> (progressClosed s \<longleftrightarrow> main s = Returned \<and> progressWanted b))"

definition all_done :: "batch \<Rightarrow> dispatcher \<Rightarrow> bool" where
  "all_done b s =
     (length (goroutines s) = length (urls b)
      \<and> list_all (\<lambda>pc. pc = Exited) (goroutines s)
      \<and> length (resultChan s) = length (urls b)
      \<and> mset (map Some (resultChan s)) = mset (map (task_result b) [0..<length (urls b)])
      \<and> progressChan s
          = (if progressWanted b then map int [1..<Suc (length (urls b))] else []))"

definition observe ::
  "batch \<Rightarrow> dispatcher \<Rightarrow> main_pc \<times> choice list \<times> nat \<times> int list \<times> bool \<times> bool" where
  "observe b s =
     (main s, enabled b s, length (resultChan s), progressChan s, resultClosed s,
      progressClosed s)"

definition observations ::
  "batch \<Rightarrow> choice list
     \<Rightarrow> (panic + (main_pc \<times> choice list \<times> nat \<times> int list \<times> bool \<times> bool) option) list" where
  "observations b schedule =
     map (\<lambda>k. map_sum id (map_option (observe b)) (CheckURLs b (take k schedule)))
       [0..<Suc (length schedule)]"

text \<open>
  Two URLs, one of them malformed, checked one at a time, on channels as the handlers of
  the web server make them: both with a buffer for one value per URL, the results being
  received and the progress values not; and a full turn of one goroutine. Then batches
  that do not get through: the same with concurrency 0; one URL under a global rate limit
  of 0; and one URL on channels without a buffer from which nobody receives.
\<close>

definition two_urls :: batch where
  "two_urls =
     \<lparr>config = DefaultConfig\<lparr>Concurrency := 1\<rparr>,
      urls = [''https://example.com'', '':not-a-url''],
      envs = (\<lambda>i k. if i = 0 then answer (Response 200 ''200 OK'') Second else malformed),
      progressWanted = True,
      resultAccepted = (\<lambda>k. True),
      progressAccepted = (\<lambda>k. k < 2)\<rparr>"

definition turn :: "nat \<Rightarrow> choice list" where
  "turn i = replicate 9 (Goroutine i)"

definition stuck :: batch where
  "stuck = two_urls\<lparr>config := DefaultConfig\<lparr>Concurrency := 0\<rparr>\<rparr>"

definition one_url :: batch where
  "one_url =
     \<lparr>config = DefaultConfig,
      urls = [''https://example.com''],
      envs = (\<lambda>i k. answer (Response 200 ''200 OK'') Second),
      progressWanted = True,
      resultAccepted = (\<lambda>k. True),
      progressAccepted = (\<lambda>k. k < 1)\<rparr>"

definition starved :: batch where
  "starved = one_url\<lparr>config := DefaultConfig\<lparr>GlobalRate := 0\<rparr>\<rparr>"

definition unread :: batch where
  "unread = one_url\<lparr>resultAccepted := (\<lambda>k. False)\<rparr>"

definition unread_progress :: batch where
  "unread_progress = one_url\<lparr>progressAccepted := (\<lambda>k. False)\<rparr>"

text \<open>One URL under a retry count of -1.\<close>

definition no_attempt :: batch where
  "no_attempt = one_url\<lparr>config := DefaultConfig\<lparr>Retries := - 1\<rparr>\<rparr>"

subsection \<open>Summary statistics\<close>

text \<open>
  The summary of section 4.5 of the specification, over a list of results: counts by the
  success flag, the rate as the float64 computation of the code, and the average, least
  and greatest response time and latency over the successful results, in \<^verbatim>\<open>int64\<close>
  arithmetic.
\<close>

definition least_duration :: "duration list \<Rightarrow> duration" where
  "least_duration ds = word_of_int (Min (set (map sint ds)))"

definition greatest_duration :: "duration list \<Rightarrow> duration" where
  "greatest_duration ds = word_of_int (Max (set (map sint ds)))"

definition summarize :: "CheckResult list \<Rightarrow> duration \<Rightarrow> Statistics" where
  "summarize results totalDuration =
     (if results = [] then zero_Statistics
      else
        let ok = filter Success results; n = length ok
        in \<lparr>TotalRequests = int (length results),
            SuccessCount = int n,
            FailureCount = int (length (filter (\<lambda>r. \<not> Success r) results)),
            SuccessRate =
              f64_mul (f64_div (f64_of_int (int n)) (f64_of_int (int (length results)))) 100,
            AvgResponseTime =
              (if n = 0 then 0 else duration_div (sum_list (map ResponseTime ok)) (of_nat n)),
            MinResponseTime = (if n = 0 then 0 else least_duration (map ResponseTime ok)),
            MaxResponseTime = (if n = 0 then 0 else greatest_duration (map ResponseTime ok)),
            AvgLatency =
              (if n = 0 then 0 else duration_div (sum_list (map Latency ok)) (of_nat n)),
            MinLatency = (if n = 0 then 0 else least_duration (map Latency ok)),
            MaxLatency_stats = (if n = 0 then 0 else greatest_duration (map Latency ok)),
            TotalDuration = totalDuration\<rparr>)"

text \<open>A result with a given success flag and timings, for concrete runs.\<close>

definition probe :: "bool \<Rightarrow> duration \<Rightarrow> duration \<Rightarrow> CheckResult" where
  "probe ok rt lat =
     \<lparr>URL = ''https://example.com'', StatusCode = (if ok then 200 else 500),
      ResponseTime = rt, Latency = lat, Error = (if ok then [] else ''http_error''),
      ErrorMessage = Text [], Timestamp = 0, Success = ok\<rparr>"

section \<open>Properties of the statistics\<close>

lemma count_results_Some:
  "count_results (map Some rs) l =
     Inr (l\<lparr>stats := (stats l)
              \<lparr>SuccessCount := SuccessCount (stats l) + int (length (filter Success rs)),
               FailureCount := FailureCount (stats l)
                 + int (length (filter (\<lambda>r. \<not> Success r) rs))\<rparr>,
            totalResponseTime :=
              totalResponseTime l + sum_list (map ResponseTime (filter Success rs)),
            totalLatency := totalLatency l + sum_list (map Latency (filter Success rs)),
            successResponseTimes :=
              successResponseTimes l @ map ResponseTime (filter Success rs),
            successLatencies := successLatencies l @ map Latency (filter Success rs)\<rparr>)"
proof (induction rs arbitrary: l)
  case Nil
  show ?case by simp
next
  case (Cons r rs)
  show ?case
    by (simp add: Cons.IH count_result_def add.assoc)
qed

lemma count_results_nil:
  "None \<in> set results \<Longrightarrow> count_results results l = Inl NilPointerDereference"
  by (induction results l rule: count_results.induct) auto

lemma sint_min_loop:
  "sint (min_loop ds m) = fold min (map sint ds) (sint m)"
  by (induction ds arbitrary: m) (simp_all add: word_sless_alt min_def)

lemma sint_max_loop:
  "sint (max_loop ds m) = fold max (map sint ds) (sint m)"
  by (induction ds arbitrary: m) (auto simp add: word_sless_alt max_def)

lemma word_of_sint: "word_of_int (sint w) = (w :: duration)"
  by simp

lemma min_loop_least: "min_loop (d # ds) d = least_duration (d # ds)"
proof -
  have "sint (min_loop (d # ds) d) = Min (set (map sint (d # ds)))"
    using Min.set_eq_fold [of "sint d" "map sint ds"] by (simp add: sint_min_loop)
  then have "word_of_int (sint (min_loop (d # ds) d)) = least_duration (d # ds)"
    unfolding least_duration_def by (rule arg_cong)
  then show ?thesis
    by (simp only: word_of_sint)
qed

lemma max_loop_greatest: "max_loop (d # ds) d = greatest_duration (d # ds)"
proof -
  have "sint (max_loop (d # ds) d) = Max (set (map sint (d # ds)))"
    using Max.set_eq_fold [of "sint d" "map sint ds"] by (simp add: sint_max_loop)
  then have "word_of_int (sint (max_loop (d # ds) d)) = greatest_duration (d # ds)"
    unfolding greatest_duration_def by (rule arg_cong)
  then show ?thesis
    by (simp only: word_of_sint)
qed

subsection \<open>The rounding of float64\<close>

lemma pow2_powi: "pow2 e = 2 powi e"
  by (simp add: pow2_def power_int_def inverse_eq_divide power_one_over)

lemma pow2_pos: "0 < pow2 e"
  by (simp add: pow2_powi)

lemma pow2_add: "pow2 (m + n) = pow2 m * pow2 n"
  by (simp add: pow2_powi power_int_add)

lemma pow2_diff: "pow2 (m - n) = pow2 m / pow2 n"
  by (simp add: pow2_powi power_int_diff)

lemma pow2_of_nat: "pow2 (int n) = 2 ^ n"
  by (simp add: pow2_def)

lemma binary_exponent_bounds:
  assumes "0 < a"
  shows "pow2 (binary_exponent a) \<le> a \<and> a < pow2 (binary_exponent a + 1)"
proof -
  obtain p q where pq: "quotient_of a = (p, q)"
    by (cases "quotient_of a")
  then have q: "0 < q" and a: "a = of_int p / of_int q"
    by (simp_all add: quotient_of_denom_pos quotient_of_div)
  with assms have p: "0 < p"
    by (simp add: zero_less_divide_iff)
  define d where "d = bitlen p - bitlen q"
  from bitlen_bounds [OF p] bitlen_bounds [OF q]
  have bp: "2 ^ nat (bitlen p - 1) \<le> p" "p < 2 ^ nat (bitlen p)"
    and bq: "2 ^ nat (bitlen q - 1) \<le> q" "q < 2 ^ nat (bitlen q)"
    by simp_all
  have p1: "1 \<le> bitlen p" and q1: "1 \<le> bitlen q"
    using p q by (simp_all add: bitlen_alt_def)
  have P: "pow2 (bitlen p - 1) \<le> of_int p" "of_int p < pow2 (bitlen p)"
  proof -
    have "pow2 (bitlen p - 1) = of_int (2 ^ nat (bitlen p - 1))"
      using p1 by (simp add: pow2_def)
    also have "\<dots> \<le> of_int p"
      using bp(1) by (simp only: of_int_le_iff)
    finally show "pow2 (bitlen p - 1) \<le> of_int p" .
    have "of_int p < (of_int (2 ^ nat (bitlen p)) :: rat)"
      using bp(2) by (simp only: of_int_less_iff)
    also have "\<dots> = pow2 (bitlen p)"
      using p1 by (simp add: pow2_def)
    finally show "of_int p < pow2 (bitlen p)" .
  qed
  have Q: "pow2 (bitlen q - 1) \<le> of_int q" "of_int q < pow2 (bitlen q)"
  proof -
    have "pow2 (bitlen q - 1) = of_int (2 ^ nat (bitlen q - 1))"
      using q1 by (simp add: pow2_def)
    also have "\<dots> \<le> of_int q"
      using bq(1) by (simp only: of_int_le_iff)
    finally show "pow2 (bitlen q - 1) \<le> of_int q" .
    have "of_int q < (of_int (2 ^ nat (bitlen q)) :: rat)"
      using bq(2) by (simp only: of_int_less_iff)
    also have "\<dots> = pow2 (bitlen q)"
      using q1 by (simp add: pow2_def)
    finally show "of_int q < pow2 (bitlen q)" .
  qed
  have qpos: "(0::rat) < of_int q" and ppos: "(0::rat) < of_int p"
    using p q by simp_all
  have upper: "a < pow2 (d + 1)"
  proof -
    have "of_int p * pow2 (bitlen q - 1) < pow2 (bitlen p) * of_int q"
      using P(2) Q(1) ppos pow2_pos [of "bitlen q - 1"]
      by (intro mult_less_le_imp_less) simp_all
    then have "of_int p / of_int q < pow2 (bitlen p) / pow2 (bitlen q - 1)"
      using qpos pow2_pos [of "bitlen q - 1"] by (simp add: field_simps)
    also have "\<dots> = pow2 (d + 1)"
      unfolding d_def by (simp flip: pow2_diff) (simp add: algebra_simps)
    finally show ?thesis by (simp add: a)
  qed
  have lower: "pow2 (d - 1) < a"
  proof -
    have "pow2 (bitlen p - 1) * of_int q < of_int p * pow2 (bitlen q)"
      using P(1) Q(2) qpos pow2_pos [of "bitlen p - 1"]
      by (intro mult_le_less_imp_less) simp_all
    then have "pow2 (bitlen p - 1) / pow2 (bitlen q) < of_int p / of_int q"
      using qpos pow2_pos [of "bitlen q"] by (simp add: field_simps)
    moreover have "pow2 (bitlen p - 1) / pow2 (bitlen q) = pow2 (d - 1)"
      unfolding d_def by (simp flip: pow2_diff) (simp add: algebra_simps)
    ultimately show ?thesis by (simp add: a)
  qed
  have e: "binary_exponent a = (if pow2 d \<le> a then d else d - 1)"
    by (simp add: binary_exponent_def pq d_def Let_def)
  show ?thesis
  proof (cases "pow2 d \<le> a")
    case True
    with e upper show ?thesis by simp
  next
    case False
    with e lower show ?thesis by simp
  qed
qed

lemma round_half_even_error: "\<bar>of_int (round_half_even m) - m\<bar> \<le> 1 / 2"
proof -
  have "of_int \<lfloor>m\<rfloor> \<le> m" "m < of_int \<lfloor>m\<rfloor> + 1"
    by linarith+
  then show ?thesis
    by (auto simp: round_half_even_def Let_def abs_le_iff)
qed

lemma round_half_even_of_int: "round_half_even (of_int k) = k"
  by (simp add: round_half_even_def)

lemma f64_round_error:
  assumes "0 < x"
  shows "\<bar>f64_round x - x\<bar> \<le> x / 2 ^ 53"
proof -
  define e where "e = binary_exponent x"
  define m where "m = x / pow2 (e - 52)"
  from binary_exponent_bounds [OF assms] have lo: "pow2 e \<le> x"
    by (simp add: e_def)
  have f: "f64_round x = of_int (round_half_even m) * pow2 (e - 52)"
    using assms by (simp add: f64_round_def Let_def e_def m_def)
  have x: "x = m * pow2 (e - 52)"
    using pow2_pos [of "e - 52"] by (simp add: m_def)
  have "\<bar>f64_round x - x\<bar> = \<bar>of_int (round_half_even m) - m\<bar> * pow2 (e - 52)"
    using pow2_pos [of "e - 52"]
    by (subst (2) x) (simp add: f abs_mult flip: left_diff_distrib)
  also have "\<dots> \<le> 1 / 2 * pow2 (e - 52)"
    using round_half_even_error [of m] pow2_pos [of "e - 52"]
    by (intro mult_right_mono) simp_all
  also have "\<dots> = pow2 e / 2 ^ 53"
    by (simp add: pow2_diff pow2_of_nat [of 52, simplified])
  also have "\<dots> \<le> x / 2 ^ 53"
    using lo by (simp add: divide_right_mono)
  finally show ?thesis .
qed

lemma f64_round_0: "f64_round 0 = 0"
  by (simp add: f64_round_def)

lemma bounds_by_abs:
  fixes a e :: rat
  shows "\<bar>a - 1\<bar> \<le> e \<Longrightarrow> 1 - e \<le> a" "\<bar>a - 1\<bar> \<le> e \<Longrightarrow> a \<le> 1 + e"
  by linarith+

lemma f64_round_ratio:
  assumes "0 < x"
  obtains a where "f64_round x = x * a" "1 - 1 / 2 ^ 53 \<le> a" "a \<le> 1 + 1 / 2 ^ 53"
proof
  define a where "a = f64_round x / x"
  show "f64_round x = x * a"
    using assms by (simp add: a_def)
  have "a - 1 = (f64_round x - x) / x"
    using assms by (simp add: a_def diff_divide_distrib)
  then have "\<bar>a - 1\<bar> = \<bar>f64_round x - x\<bar> / \<bar>x\<bar>"
    by (simp only: abs_divide)
  also have "\<dots> = \<bar>f64_round x - x\<bar> / x"
    using assms by simp
  also have "\<dots> \<le> (x / 2 ^ 53) / x"
    using f64_round_error [OF assms] assms by (intro divide_right_mono) simp_all
  also have "\<dots> = 1 / 2 ^ 53"
    using assms by simp
  finally have "\<bar>a - 1\<bar> \<le> 1 / 2 ^ 53" .
  then show "1 - 1 / 2 ^ 53 \<le> a" "a \<le> 1 + 1 / 2 ^ 53"
    by (rule bounds_by_abs)+
qed

lemma abs_le_by_bounds:
  fixes m e :: rat
  shows "1 - e \<le> m \<Longrightarrow> m \<le> 1 + e \<Longrightarrow> \<bar>m - 1\<bar> \<le> e"
  by linarith

lemma abs_scaled:
  fixes r m :: rat
  shows "0 < r \<Longrightarrow> \<bar>r * m - r\<bar> = r * \<bar>m - 1\<bar>"
proof -
  assume r: "0 < r"
  have "r * m - r = r * (m - 1)"
    by (simp add: algebra_simps)
  then have "\<bar>r * m - r\<bar> = \<bar>r\<bar> * \<bar>m - 1\<bar>"
    by (simp only: abs_mult)
  with r show ?thesis
    by simp
qed

lemma rounding_product:
  fixes a b c d :: rat
  assumes "1 - 1 / 2 ^ 53 \<le> a" "a \<le> 1 + 1 / 2 ^ 53"
    and "1 - 1 / 2 ^ 53 \<le> b" "b \<le> 1 + 1 / 2 ^ 53"
    and "1 - 1 / 2 ^ 53 \<le> c" "c \<le> 1 + 1 / 2 ^ 53"
    and "1 - 1 / 2 ^ 53 \<le> d" "d \<le> 1 + 1 / 2 ^ 53"
  shows "\<bar>a * c * d / b - 1\<bar> \<le> 1 / 2 ^ 50"
proof -
  define l :: rat where "l = 1 - 1 / 2 ^ 53"
  define h :: rat where "h = 1 + 1 / 2 ^ 53"
  have l: "0 < l" and h: "0 < h"
    by (simp_all add: l_def h_def)
  note A = assms [folded l_def h_def]
  have pos: "0 < a" "0 < b" "0 < c" "0 < d"
    using A l by simp_all
  have "a * c \<le> h * h"
    using A pos h by (intro mult_mono) simp_all
  then have up: "a * c * d \<le> h * h * h"
    using A pos h by (intro mult_mono) simp_all
  have "l * l \<le> a * c"
    using A pos l by (intro mult_mono) simp_all
  then have lo: "l * l * l \<le> a * c * d"
    using A pos l by (intro mult_mono) simp_all
  have "a * c * d / b \<le> h * h * h / l"
    using up A l h by (intro frac_le) simp_all
  also have "\<dots> \<le> 1 + 1 / 2 ^ 50"
    by (simp add: l_def h_def)
  finally have upper: "a * c * d / b \<le> 1 + 1 / 2 ^ 50" .
  have "1 - 1 / 2 ^ 50 \<le> l * l * l / h"
    by (simp add: l_def h_def)
  also have "\<dots> \<le> a * c * d / b"
    using lo A l h pos by (intro frac_le) simp_all
  finally have lower: "1 - 1 / 2 ^ 50 \<le> a * c * d / b" .
  from lower upper show ?thesis
    by (rule abs_le_by_bounds)
qed

lemma success_rate_error:
  assumes "0 \<le> s" and "s \<le> t" and "0 < t"
  shows "\<bar>f64_mul (f64_div (f64_of_int s) (f64_of_int t)) 100 - 100 * of_int s / of_int t\<bar>
     \<le> (100 * of_int s / of_int t) / 2 ^ 50"
proof (cases "s = 0")
  case True
  then show ?thesis
    by (simp add: f64_of_int_def f64_div_def f64_mul_def f64_round_0)
next
  case False
  with assms have s: "(0::rat) < of_int s" and t: "(0::rat) < of_int t"
    by simp_all
  from f64_round_ratio [OF s] obtain a where a: "f64_round (of_int s) = of_int s * a"
    "1 - 1 / 2 ^ 53 \<le> a" "a \<le> 1 + 1 / 2 ^ 53"
    by blast
  from f64_round_ratio [OF t] obtain b where b: "f64_round (of_int t) = of_int t * b"
    "1 - 1 / 2 ^ 53 \<le> b" "b \<le> 1 + 1 / 2 ^ 53"
    by blast
  have apos: "0 < a" and bpos: "0 < b"
    using a(2) b(2) by simp_all
  define q0 :: rat where "q0 = of_int s * a / (of_int t * b)"
  have q0: "0 < q0"
    using s t apos bpos by (simp add: q0_def)
  from f64_round_ratio [OF q0] obtain c where c: "f64_round q0 = q0 * c"
    "1 - 1 / 2 ^ 53 \<le> c" "c \<le> 1 + 1 / 2 ^ 53"
    by blast
  have cpos: "0 < c"
    using c(2) by simp
  have q1: "0 < q0 * c * 100"
    using q0 cpos by simp
  from f64_round_ratio [OF q1] obtain d where d: "f64_round (q0 * c * 100) = q0 * c * 100 * d"
    "1 - 1 / 2 ^ 53 \<le> d" "d \<le> 1 + 1 / 2 ^ 53"
    by blast
  define r :: rat where "r = 100 * of_int s / of_int t"
  have r: "0 < r"
    using s t by (simp add: r_def)
  define m where "m = a * c * d / b"
  have "f64_mul (f64_div (f64_of_int s) (f64_of_int t)) 100 = q0 * c * 100 * d"
    by (simp add: f64_mul_def f64_div_def f64_of_int_def a(1) b(1) c(1) d(1)
        flip: q0_def)
  also have "\<dots> = r * m"
    by (simp add: q0_def r_def m_def)
  finally have rate: "f64_mul (f64_div (f64_of_int s) (f64_of_int t)) 100 = r * m" .
  have "\<bar>r * m - r\<bar> = r * \<bar>m - 1\<bar>"
    using r by (rule abs_scaled)
  also have "\<dots> \<le> r * (1 / 2 ^ 50)"
    using rounding_product [OF a(2,3) b(2,3) c(2,3) d(2,3)] r
    unfolding m_def by (intro mult_left_mono) simp_all
  finally have "\<bar>r * m - r\<bar> \<le> r / 2 ^ 50"
    by simp
  then show ?thesis
    unfolding rate r_def .
qed

lemma summarize_rate_error:
  assumes "results \<noteq> []"
  shows "\<bar>SuccessRate (summarize results totalDuration)
            - 100 * of_nat (length (filter Success results)) / of_nat (length results)\<bar>
         \<le> 100 * of_nat (length (filter Success results)) / of_nat (length results) / 2 ^ 50"
proof -
  let ?s = "int (length (filter Success results))"
  let ?t = "int (length results)"
  have "0 \<le> ?s" "?s \<le> ?t" "0 < ?t"
    using assms by simp_all
  then have "\<bar>f64_mul (f64_div (f64_of_int ?s) (f64_of_int ?t)) 100
        - 100 * of_int ?s / of_int ?t\<bar> \<le> (100 * of_int ?s / of_int ?t) / 2 ^ 50"
    by (rule success_rate_error)
  with assms show ?thesis
    by (simp add: summarize_def Let_def)
qed

subsection \<open>The summary\<close>

text \<open>
  C5 (as amended). For every list of pointers to results and every total duration: when
  no pointer is nil, \<^verbatim>\<open>CalculateStatistics\<close> returns the summary of the results: for the
  empty list the zero-valued statistics, whose total duration is zero whatever the
  argument; otherwise the number of results, the counts of successes and of failures, the
  success rate as the float64 value of (successes / total) * 100 with each operation
  rounded, the average (sum in \<^verbatim>\<open>int64\<close>, division truncating), least and greatest response
  time and latency over the successful results only, all zero when there is no success,
  and the total duration given. When one of the pointers is nil, the call panics. The
  success rate is within a relative error of 2^-50 of 100 * successes / total.
\<close>

theorem CalculateStatistics_summarize:
  "CalculateStatistics (map Some results) totalDuration = Inr (summarize results totalDuration)
   \<and> (None \<in> set pointers \<longrightarrow>
        CalculateStatistics pointers totalDuration = Inl NilPointerDereference)
   \<and> (results \<noteq> [] \<longrightarrow>
        \<bar>SuccessRate (summarize results totalDuration)
            - 100 * of_nat (length (filter Success results)) / of_nat (length results)\<bar>
         \<le> 100 * of_nat (length (filter Success results)) / of_nat (length results) / 2 ^ 50)"
proof -
  have "CalculateStatistics (map Some results) totalDuration = Inr (summarize results totalDuration)"
  proof (cases "results = []")
    case True
    then show ?thesis by (simp add: CalculateStatistics_def summarize_def)
  next
    case False
    show ?thesis
    proof (cases "filter Success results")
      case Nil
      with False show ?thesis
        by (simp add: CalculateStatistics_def summarize_def count_results_Some
            response_time_stats_def latency_stats_def success_rate_def zero_Statistics_def)
    next
      case (Cons r ok)
      with False show ?thesis
        by (simp add: CalculateStatistics_def summarize_def count_results_Some
            response_time_stats_def latency_stats_def success_rate_def zero_Statistics_def
            min_loop_least max_loop_greatest Let_def del: min_loop.simps max_loop.simps)
    qed
  qed
  moreover have "CalculateStatistics pointers totalDuration = Inl NilPointerDereference"
    if "None \<in> set pointers"
  proof -
    from that have "pointers \<noteq> []"
      by auto
    with that show ?thesis
      by (simp add: CalculateStatistics_def count_results_nil)
  qed
  ultimately show ?thesis
    using summarize_rate_error [of results totalDuration] by blast
qed

text \<open>
  Witness for C5: one success among three results, and the same pointers with a nil one
  after them.
\<close>

theorem CalculateStatistics_summarize_witness:
  "CalculateStatistics
     [Some (probe True 30 40), Some (probe False 7 9), Some (probe False 1 1)] 80
     = Inr (summarize [probe True 30 40, probe False 7 9, probe False 1 1] 80)
   \<and> CalculateStatistics
       [Some (probe True 30 40), Some (probe False 7 9), Some (probe False 1 1), None] 80
     = Inl NilPointerDereference
   \<and> SuccessRate (summarize [probe True 30 40, probe False 7 9, probe False 1 1] 80)
       = 2345624805922133 / 70368744177664
   \<and> \<bar>2345624805922133 / 70368744177664 - 100 / 3 :: rat\<bar> \<le> 100 / 3 / 2 ^ 50"
proof -
  let ?rs = "[probe True 30 40, probe False 7 9, probe False 1 1]"
  have rate: "SuccessRate (summarize ?rs 80) = 2345624805922133 / 70368744177664"
    by code_simp
  have n: "length (filter Success ?rs) = 1" "length ?rs = 3"
    by (simp_all add: probe_def)
  from CalculateStatistics_summarize [of ?rs 80 "map Some ?rs @ [None]"] show ?thesis
    unfolding rate n by simp
qed

text \<open>
  C5 as stated fails three times. On the empty list the total duration given is not
  recorded. On a list with a nil pointer no statistics are returned: the call panics.
  With one success among three results the rate is not 100 * 1 / 3: it is the float64
  below, which is neither that number, nor the float64 nearest to it, nor the float64
  value of the expression 100 * successes / total.
\<close>

theorem CalculateStatistics_counterexample:
  "CalculateStatistics [] (5 * Second) = Inr zero_Statistics
   \<and> TotalDuration zero_Statistics \<noteq> 5 * Second
   \<and> CalculateStatistics [Some (probe True 30 40), None] 80 = Inl NilPointerDereference
   \<and> CalculateStatistics
        [Some (probe True 30 40), Some (probe False 7 9), Some (probe False 1 1)] 80
      = Inr \<lparr>TotalRequests = 3, SuccessCount = 1, FailureCount = 2,
             SuccessRate = 2345624805922133 / 70368744177664,
             AvgResponseTime = 30, MinResponseTime = 30, MaxResponseTime = 30,
             AvgLatency = 40, MinLatency = 40, MaxLatency_stats = 40, TotalDuration = 80\<rparr>
   \<and> (2345624805922133 / 70368744177664 :: rat) \<noteq> 100 * 1 / 3
   \<and> (2345624805922133 / 70368744177664 :: rat) \<noteq> f64_round (100 * 1 / 3)
   \<and> (2345624805922133 / 70368744177664 :: rat)
       \<noteq> f64_div (f64_mul 100 (f64_of_int 1)) (f64_of_int 3)"
  by code_simp

section \<open>Properties of the rate limiter\<close>

lemma window_grants_nonempty: "window_grants g outcomes \<noteq> []"
  by (induction g outcomes rule: window_grants.induct) simp_all

lemma serve_Tick:
  "fst (serve rl (Tick # ops)) = fst (serve (resetCounter rl) ops)"
  "snd (serve rl (Tick # ops)) = Reset # snd (serve (resetCounter rl) ops)"
  by (simp_all add: case_prod_beta)

lemma serve_Allow:
  "fst (serve rl (Allow # ops)) = fst (serve (fst (allow rl)) ops)"
  "snd (serve rl (Allow # ops))
     = (if snd (allow rl) then Granted else Denied) # snd (serve (fst (allow rl)) ops)"
  by (simp_all add: case_prod_beta)

lemma serve_invariant:
  "count rl = int g \<Longrightarrow> int g \<le> max (limit rl) 0 \<Longrightarrow>
   limit (fst (serve rl ops)) = limit rl
   \<and> count (fst (serve rl ops)) = int (last (window_grants g (snd (serve rl ops))))
   \<and> (\<forall>n\<in>set (window_grants g (snd (serve rl ops))). int n \<le> max (limit rl) 0)
   \<and> (limit rl \<le> 0 \<longrightarrow> Granted \<notin> set (snd (serve rl ops)))"
proof (induction ops arbitrary: rl g)
  case Nil
  then show ?case by simp
next
  case (Cons op ops)
  show ?case
  proof (cases op)
    case Tick
    have "count (resetCounter rl) = int 0" "int 0 \<le> max (limit (resetCounter rl)) 0"
      by (simp_all add: resetCounter_def)
    from Cons.IH [OF this] Cons.prems show ?thesis
      unfolding Tick serve_Tick
      by (simp add: resetCounter_def window_grants_nonempty)
  next
    case Allow
    show ?thesis
    proof (cases "count rl < limit rl")
      case True
      then have a: "allow rl = (rl\<lparr>count := count rl + 1\<rparr>, True)"
        by (simp add: allow_def)
      have "count (rl\<lparr>count := count rl + 1\<rparr>) = int (Suc g)"
        "int (Suc g) \<le> max (limit (rl\<lparr>count := count rl + 1\<rparr>)) 0"
        using True Cons.prems by simp_all
      from Cons.IH [OF this] True Cons.prems show ?thesis
        unfolding Allow serve_Allow a by auto
    next
      case False
      then have a: "allow rl = (rl, False)"
        by (simp add: allow_def)
      from Cons.IH [OF Cons.prems] show ?thesis
        unfolding Allow serve_Allow a by simp
    qed
  qed
qed

lemma serve_then_Tick: "count (fst (serve rl (ops @ [Tick]))) = 0"
proof (induction ops arbitrary: rl)
  case Nil
  show ?case by (simp add: resetCounter_def)
next
  case (Cons op ops)
  then show ?case
    by (cases op) (simp_all only: append_Cons serve_Tick serve_Allow)
qed

text \<open>
  C3. For every limit L and every order in which concurrent calls of \<^verbatim>\<open>allow\<close> and
  ticks take effect on a new limiter: the counter is the number of permits granted in the
  current window; the next call of \<^verbatim>\<open>allow\<close> grants a permit exactly when fewer than L
  were granted in the current window; a tick leaves the counter at zero; with L <= 0 no
  permit is ever granted; no window has more than max(L, 0) permits granted; and the
  counter lies between 0 and max(L, 0).
\<close>

theorem rateLimiter_window:
  "count (fst (serve (newRateLimiter L) ops))
     = int (granted_in_window (snd (serve (newRateLimiter L) ops)))
   \<and> (snd (allow (fst (serve (newRateLimiter L) ops)))
        \<longleftrightarrow> int (granted_in_window (snd (serve (newRateLimiter L) ops))) < L)
   \<and> count (fst (serve (newRateLimiter L) (ops @ [Tick]))) = 0
   \<and> (L \<le> 0 \<longrightarrow> Granted \<notin> set (snd (serve (newRateLimiter L) ops)))
   \<and> (\<forall>n\<in>set (window_grants 0 (snd (serve (newRateLimiter L) ops))). int n \<le> max L 0)
   \<and> 0 \<le> count (fst (serve (newRateLimiter L) ops))
   \<and> count (fst (serve (newRateLimiter L) ops)) \<le> max L 0"
proof -
  let ?rl = "newRateLimiter L"
  have init: "count ?rl = int 0" "int 0 \<le> max (limit ?rl) 0"
    by (simp_all add: newRateLimiter_def)
  have l: "limit ?rl = L"
    by (simp add: newRateLimiter_def)
  note inv = serve_invariant [OF init, unfolded l]
  have c: "count (fst (serve ?rl ops)) = int (granted_in_window (snd (serve ?rl ops)))"
    using inv [of ops] by (simp add: granted_in_window_def)
  have a: "snd (allow (fst (serve ?rl ops)))
        \<longleftrightarrow> int (granted_in_window (snd (serve ?rl ops))) < L"
    using inv [of ops] c by (simp add: allow_def)
  note t = serve_then_Tick [of ?rl ops]
  have "last (window_grants 0 (snd (serve ?rl ops))) \<in> set (window_grants 0 (snd (serve ?rl ops)))"
    by (intro last_in_set window_grants_nonempty)
  with inv [of ops] have b: "count (fst (serve ?rl ops)) \<le> max L 0"
    by auto
  from inv [of ops] c a t b show ?thesis
    by simp
qed

text \<open>
  Witness for C3: limit 2, three calls, a tick and a fourth call; and limit 0.
\<close>

theorem rateLimiter_window_witness:
  "snd (serve (newRateLimiter 2) [Allow, Allow, Allow, Tick, Allow])
     = [Granted, Granted, Denied, Reset, Granted]
   \<and> window_grants 0 (snd (serve (newRateLimiter 2) [Allow, Allow, Allow, Tick, Allow])) = [2, 1]
   \<and> count (fst (serve (newRateLimiter 2) [Allow, Allow, Allow, Tick, Allow])) = 1
   \<and> snd (allow (fst (serve (newRateLimiter 2) [Allow, Allow, Allow, Tick, Allow])))
   \<and> snd (serve (newRateLimiter 0) [Allow, Tick, Allow]) = [Denied, Reset, Denied]"
  using rateLimiter_window [of 2 "[Allow, Allow, Allow, Tick, Allow]"]
    rateLimiter_window [of 0 "[Allow, Tick, Allow]"]
  by (simp add: newRateLimiter_def allow_def resetCounter_def granted_in_window_def)


subsection \<open>Waiting for a permit\<close>

lemma serve_limit: "limit (fst (serve rl ops)) = limit rl"
proof (induction ops arbitrary: rl)
  case Nil
  show ?case by simp
next
  case (Cons op ops)
  show ?case
    by (cases op)
      (simp_all only: serve_Tick serve_Allow Cons.IH, simp_all add: resetCounter_def allow_def)
qed

lemma serve_count_nonneg: "0 \<le> count rl \<Longrightarrow> 0 \<le> count (fst (serve rl ops))"
proof (induction ops arbitrary: rl)
  case Nil
  then show ?case by simp
next
  case (Cons op ops)
  show ?case
  proof (cases op)
    case Tick
    have "0 \<le> count (resetCounter rl)"
      by (simp add: resetCounter_def)
    from Cons.IH [OF this] show ?thesis
      by (simp only: Tick serve_Tick)
  next
    case Allow
    have "0 \<le> count (fst (allow rl))"
      using Cons.prems by (simp add: allow_def)
    from Cons.IH [OF this] show ?thesis
      by (simp only: Allow serve_Allow)
  qed
qed

lemma waitForRateLimit_granted:
  assumes "waitForRateLimit rl others k = Some y"
  shows "0 < limit rl \<or> count rl < 0"
proof (rule waitForRateLimit.raw_induct
    [where P = "\<lambda>rl others k y. 0 < limit rl \<or> count rl < 0", OF _ assms])
  fix wait rl others k and y :: "rateLimiter \<times> nat"
  assume IH: "\<And>rl others k y. wait rl others k = Some y \<Longrightarrow> 0 < limit rl \<or> count rl < 0"
    and eq: "(let (rl', ok) = allow (fst (serve rl (others k)))
              in if ok then Some (rl', k) else wait rl' others (Suc k)) = Some y"
  define served where "served = fst (serve rl (others k))"
  show "0 < limit rl \<or> count rl < 0"
  proof (rule ccontr)
    assume "\<not> (0 < limit rl \<or> count rl < 0)"
    then have rl: "limit rl \<le> 0" "0 \<le> count rl"
      by simp_all
    then have s: "limit served \<le> 0" "0 \<le> count served"
      by (simp_all add: served_def serve_limit serve_count_nonneg)
    then have "allow served = (served, False)"
      by (simp add: allow_def)
    with eq have "wait served others (Suc k) = Some y"
      by (simp add: served_def)
    from IH [OF this] s show False
      by simp
  qed
qed

lemma waitForRateLimit_no_limit:
  "L \<le> 0 \<Longrightarrow> waitForRateLimit (newRateLimiter L) others k = None"
proof (cases "waitForRateLimit (newRateLimiter L) others k")
  case None
  then show ?thesis by simp
next
  case (Some y)
  assume "L \<le> 0"
  with waitForRateLimit_granted [OF Some] show ?thesis
    by (simp add: newRateLimiter_def)
qed

lemma waitForRateLimit_at_once:
  "snd (allow (fst (serve rl (others k)))) \<Longrightarrow>
   waitForRateLimit rl others k = Some (fst (allow (fst (serve rl (others k)))), k)"
  by (subst waitForRateLimit.simps) (simp add: case_prod_beta)

section \<open>Properties of the HTTP client\<close>

lemma clientDo_third:
  "clientDo srv url (Suc (Suc 0)) =
     (case srv (Suc (Suc 0)) of
        Response code status \<Rightarrow> (Inr (code, status), [url])
      | TransportError err \<Rightarrow> (Inl (Text err), [url])
      | Redirect loc \<Rightarrow> (Inl (url_Error ''Get'' loc ''stopped after 3 redirects''), [url]))"
  by (subst clientDo.simps) (simp add: CheckRedirect_def split: reply.splits)

lemma clientDo_second:
  "clientDo srv url (Suc 0) =
     (case srv (Suc 0) of
        Response code status \<Rightarrow> (Inr (code, status), [url])
      | TransportError err \<Rightarrow> (Inl (Text err), [url])
      | Redirect loc \<Rightarrow>
          (fst (clientDo srv loc (Suc (Suc 0))), url # snd (clientDo srv loc (Suc (Suc 0)))))"
  by (subst clientDo.simps)
    (simp add: CheckRedirect_def split: reply.splits prod.splits)

lemma clientDo_first:
  "clientDo srv url 0 =
     (case srv 0 of
        Response code status \<Rightarrow> (Inr (code, status), [url])
      | TransportError err \<Rightarrow> (Inl (Text err), [url])
      | Redirect loc \<Rightarrow> (fst (clientDo srv loc (Suc 0)), url # snd (clientDo srv loc (Suc 0))))"
  by (subst clientDo.simps)
    (simp add: CheckRedirect_def split: reply.splits prod.splits)

lemma redirects_followed_le_2: "redirects_followed srv url \<le> 2"
  by (simp add: redirects_followed_def clientDo_first clientDo_second clientDo_third
      split: reply.splits)

lemma third_redirect_refused:
  "srv 0 = Redirect a \<Longrightarrow> srv 1 = Redirect b \<Longrightarrow> srv 2 = Redirect c \<Longrightarrow>
   clientDo srv url 0 = (Inl (url_Error ''Get'' c ''stopped after 3 redirects''), [url, a, b])"
  by (simp add: clientDo_first clientDo_second clientDo_third numeral_2_eq_2)

lemma two_redirects_followed:
  "srv 0 = Redirect a \<Longrightarrow> srv 1 = Redirect b \<Longrightarrow> srv 2 = Response code status \<Longrightarrow>
   clientDo srv url 0 = (Inr (code, status), [url, a, b])"
  "srv 0 = Redirect a \<Longrightarrow> srv 1 = Redirect b \<Longrightarrow> srv 2 = TransportError err \<Longrightarrow>
   clientDo srv url 0 = (Inl (Text err), [url, a, b])"
  by (simp_all add: clientDo_first clientDo_second clientDo_third numeral_2_eq_2)

lemma one_redirect_followed:
  "srv 0 = Redirect a \<Longrightarrow> srv 1 = Response code status \<Longrightarrow>
   clientDo srv url 0 = (Inr (code, status), [url, a])"
  "srv 0 = Redirect a \<Longrightarrow> srv 1 = TransportError err \<Longrightarrow>
   clientDo srv url 0 = (Inl (Text err), [url, a])"
  by (simp_all add: clientDo_first clientDo_second)

lemma no_redirect_followed:
  "srv 0 = Response code status \<Longrightarrow> clientDo srv url 0 = (Inr (code, status), [url])"
  "srv 0 = TransportError err \<Longrightarrow> clientDo srv url 0 = (Inl (Text err), [url])"
  by (simp_all add: clientDo_first)

lemma clientDo_final:
  "clientDo (\<lambda>k. Response code status) url 0 = (Inr (code, status), [url])"
  "clientDo (\<lambda>k. TransportError err) url 0 = (Inl (Text err), [url])"
  by (simp_all add: clientDo_first)

lemma is_redirectE: "is_redirect r \<Longrightarrow> \<exists>loc. r = Redirect loc"
  by (cases r) (simp_all add: is_redirect_def)

lemma clientDo_chain:
  assumes "n \<le> 2" and "\<forall>k<n. is_redirect (srv k)" and "\<not> is_redirect (srv n)"
  shows "fst (clientDo srv url 0)
           = (case srv n of Response code status \<Rightarrow> Inr (code, status)
              | TransportError err \<Rightarrow> Inl (Text err)
              | Redirect loc \<Rightarrow> Inl (Text []))
         \<and> redirects_followed srv url = n"
proof -
  from assms(1) consider "n = 0" | "n = 1" | "n = 2"
    by linarith
  then show ?thesis
  proof cases
    case 1
    with assms(3) show ?thesis
      by (cases "srv 0")
        (simp_all add: no_redirect_followed redirects_followed_def is_redirect_def)
  next
    case 2
    with assms(2) obtain a where a: "srv 0 = Redirect a"
      using is_redirectE [of "srv 0"] by auto
    from 2 assms(3) show ?thesis
      by (cases "srv 1")
        (simp_all add: one_redirect_followed [of srv, OF a] redirects_followed_def is_redirect_def)
  next
    case 3
    with assms(2) obtain a b where a: "srv 0 = Redirect a" and b: "srv 1 = Redirect b"
      using is_redirectE [of "srv 0"] is_redirectE [of "srv 1"] by auto
    from 3 assms(3) show ?thesis
      by (cases "srv 2")
        (simp_all add: two_redirects_followed [of srv, OF a b] redirects_followed_def is_redirect_def)
  qed
qed

lemma clientDo_refused:
  assumes "\<forall>k<2. is_redirect (srv k)" and "srv 2 = Redirect loc"
  shows "fst (clientDo srv url 0) = Inl (url_Error ''Get'' loc ''stopped after 3 redirects'')
         \<and> redirects_followed srv url = 2"
proof -
  from assms(1) obtain a b where a: "srv 0 = Redirect a" and b: "srv 1 = Redirect b"
    using is_redirectE [of "srv 0"] is_redirectE [of "srv 1"] by auto
  show ?thesis
    by (simp add: third_redirect_refused [of srv, OF a b assms(2)] redirects_followed_def)
qed

lemma chain_3:
  "chain 3 0 = Redirect (hop 0)" "chain 3 1 = Redirect (hop 1)" "chain 3 2 = Redirect (hop 2)"
  "chain 3 3 = Response 200 ''200 OK''"
  by (simp_all add: chain_def)

lemma chain_3_refused:
  "clientDo (chain 3) url 0
     = (Inl (url_Error ''Get'' (hop 2) ''stopped after 3 redirects''), [url, hop 0, hop 1])"
  by (simp add: third_redirect_refused [of "chain 3", OF chain_3(1,2,3)])

section \<open>Properties of a single check\<close>

lemma CheckURL_success:
  "Success (fst (CheckURL cfg obs targetURL)) \<Longrightarrow>
     200 \<le> StatusCode (fst (CheckURL cfg obs targetURL))
     \<and> StatusCode (fst (CheckURL cfg obs targetURL)) < 300
     \<and> Error (fst (CheckURL cfg obs targetURL)) = []"
  by (auto simp: CheckURL_def Let_def split: sum.splits option.splits prod.splits if_splits)

lemma timeout_not_success:
  "Error (fst (CheckURL cfg obs targetURL)) = ''timeout'' \<Longrightarrow> \<not> Success (fst (CheckURL cfg obs targetURL))"
  using CheckURL_success [of cfg obs targetURL] by auto

lemma answer_facts:
  "url_Parse (answer reply rt) = Inr ''example.com''" "newRequest (answer reply rt) = None"
  "server (answer reply rt) = (\<lambda>k. reply)" "responseTime (answer reply rt) = rt"
  "dnsDuration (answer reply rt) = 20000000" "dnsFailed (answer reply rt) = True"
  "globalRateOps (answer reply rt) = quiet" "domainRateOps (answer reply rt) = quiet"
  by (simp_all add: answer_def)

text \<open>
  C2. For an attempt that gets past URL parsing and request construction: a transport
  error gives kind \<open>request_failed\<close> with the error text as detail, unless the elapsed
  time has reached \<^verbatim>\<open>MaxLatency\<close>, which gives kind \<open>timeout\<close>; a response gives its
  status code and the elapsed time on the result, with kind \<open>timeout\<close> when the elapsed
  time exceeds \<^verbatim>\<open>MaxLatency\<close>, else success without error kind for a status in
  [200,300), else kind \<open>http_error\<close> with the code and the status text in the detail.
\<close>

theorem CheckURL_classification:
  assumes "url_Parse obs = Inr domain" and "newRequest obs = None"
  shows
    "(\<forall>err. fst (clientDo (server obs) targetURL 0) = Inl err \<longrightarrow>
        \<not> Success (fst (CheckURL cfg obs targetURL))
        \<and> (if MaxLatency cfg \<le>s responseTime obs
           then Error (fst (CheckURL cfg obs targetURL)) = ''timeout''
           else Error (fst (CheckURL cfg obs targetURL)) = ''request_failed''
                \<and> ErrorMessage (fst (CheckURL cfg obs targetURL)) = err))
     \<and> (\<forall>code status. fst (clientDo (server obs) targetURL 0) = Inr (code, status) \<longrightarrow>
        StatusCode (fst (CheckURL cfg obs targetURL)) = code
        \<and> ResponseTime (fst (CheckURL cfg obs targetURL)) = responseTime obs
        \<and> (if MaxLatency cfg <s responseTime obs
           then \<not> Success (fst (CheckURL cfg obs targetURL))
                \<and> Error (fst (CheckURL cfg obs targetURL)) = ''timeout''
           else if 200 \<le> code \<and> code < 300
           then Success (fst (CheckURL cfg obs targetURL))
                \<and> Error (fst (CheckURL cfg obs targetURL)) = []
           else \<not> Success (fst (CheckURL cfg obs targetURL))
                \<and> Error (fst (CheckURL cfg obs targetURL)) = ''http_error''
                \<and> ErrorMessage (fst (CheckURL cfg obs targetURL))
                    = Sprintf ''HTTP %d: %s'' [ArgInt code, ArgStr status]))"
  using assms
  by (auto simp: CheckURL_def Let_def split: sum.splits prod.splits simp del: clientDo.simps)

text \<open>Witness for C2: one attempt in each branch of the classification.\<close>

theorem CheckURL_classification_witness:
  "Error (fst (CheckURL DefaultConfig (answer (TransportError ''connection refused'') Second)
      ''https://example.com'')) = ''request_failed''
   \<and> Error (fst (CheckURL DefaultConfig
      (answer (TransportError ''context deadline exceeded'') (30 * Second))
      ''https://example.com'')) = ''timeout''
   \<and> Error (fst (CheckURL DefaultConfig (answer (Response 200 ''200 OK'') (31 * Second))
      ''https://example.com'')) = ''timeout''
   \<and> StatusCode (fst (CheckURL DefaultConfig (answer (Response 200 ''200 OK'') (31 * Second))
      ''https://example.com'')) = 200
   \<and> Success (fst (CheckURL DefaultConfig (answer (Response 204 ''204 No Content'') Second)
      ''https://example.com''))
   \<and> ErrorMessage (fst (CheckURL DefaultConfig (answer (Response 404 ''404 Not Found'') Second)
      ''https://example.com'')) = Sprintf ''HTTP %d: %s'' [ArgInt 404, ArgStr ''404 Not Found'']"
proof -
  note c = CheckURL_classification [OF answer_facts(1,2), of _ _ "''https://example.com''" DefaultConfig]
  have l: "MaxLatency DefaultConfig = 30 * Second"
    by (simp add: DefaultConfig_def)
  show ?thesis
    using c [of "TransportError ''connection refused''" Second]
      c [of "TransportError ''context deadline exceeded''" "30 * Second"]
      c [of "Response 200 ''200 OK''" "31 * Second"]
      c [of "Response 204 ''204 No Content''" Second]
      c [of "Response 404 ''404 Not Found''" Second]
    by (simp add: answer_facts clientDo_final l Second_def word_sle_eq word_sless_alt
        del: clientDo.simps)
qed

text \<open>
  C7. For an attempt that reaches the classification of the outcome (the URL parsed and
  the request was built), in every branch the latency of the result is the DNS duration
  plus the response duration (Go's addition on \<^verbatim>\<open>int64\<close>); whether the resolution failed
  changes nothing of the check: it is not aborted and the time of the lookup is counted.
\<close>

theorem CheckURL_latency:
  assumes "url_Parse obs = Inr domain" and "newRequest obs = None"
  shows "Latency (fst (CheckURL cfg obs targetURL)) = dnsDuration obs + responseTime obs
     \<and> CheckURL cfg (obs\<lparr>dnsFailed := failed\<rparr>) targetURL = CheckURL cfg obs targetURL"
  using assms
  by (auto simp: CheckURL_def Let_def split: sum.splits prod.splits simp del: clientDo.simps)

text \<open>Witness for C7: the host does not resolve and the connection is refused.\<close>

theorem CheckURL_latency_witness:
  "Latency (fst (CheckURL DefaultConfig (answer (TransportError ''connection refused'') Second)
      ''https://example.com'')) = 1020000000
   \<and> dnsFailed (answer (TransportError ''connection refused'') Second)
   \<and> CheckURL DefaultConfig
        ((answer (TransportError ''connection refused'') Second)\<lparr>dnsFailed := False\<rparr>)
        ''https://example.com''
      = CheckURL DefaultConfig (answer (TransportError ''connection refused'') Second)
          ''https://example.com''"
  using CheckURL_latency [OF answer_facts(1,2), of DefaultConfig
      "TransportError ''connection refused''" Second "''https://example.com''" False]
  by (simp add: answer_facts Second_def)

lemma CheckURL_parse_failure:
  "url_Parse obs = Inl err \<Longrightarrow>
   CheckURL cfg obs targetURL
     = (\<lparr>URL = targetURL, StatusCode = 0, ResponseTime = 0, Latency = 0,
         Error = ''invalid_url'',
         ErrorMessage = Sprintf ''URL parse error: %v'' [ArgError (Text err)],
         Timestamp = clock obs, Success = False\<rparr>, [])"
  by (simp add: CheckURL_def)

text \<open>
  C9. For every input that fails URL parsing, the check returns kind \<open>invalid_url\<close>
  without success and without any event: no wait for a permit of the global or of a
  domain limiter, no DNS lookup, no HTTP request. The call returns whatever the limiters
  would do, and the retry loop does not retry it.
\<close>

theorem CheckURL_invalid_url:
  assumes "url_Parse obs = Inl err"
  shows "Error (fst (CheckURL cfg obs targetURL)) = ''invalid_url''
     \<and> \<not> Success (fst (CheckURL cfg obs targetURL))
     \<and> snd (CheckURL cfg obs targetURL) = []
     \<and> CheckURL_call cfg obs targetURL = Some (CheckURL cfg obs targetURL)
     \<and> (\<forall>env. env 0 = obs \<and> 0 \<le> Retries cfg \<longrightarrow>
          CheckURLWithRetry cfg env targetURL
            = Some (Some (fst (CheckURL cfg obs targetURL)), [CallCheckURL targetURL]))"
  using assms
  by (auto simp: CheckURL_parse_failure CheckURL_call_def CheckURLWithRetry_def
      retry_loop.simps [of _ _ _ 0])

text \<open>
  Witness for C9: a URL that does not parse, also under a global rate limit of 0, which
  no call that waits for a permit gets past.
\<close>

theorem CheckURL_invalid_url_witness:
  "Error (fst (CheckURL DefaultConfig malformed '':not-a-url'')) = ''invalid_url''
   \<and> snd (CheckURL DefaultConfig malformed '':not-a-url'') = []
   \<and> map_option snd (CheckURLWithRetry DefaultConfig (\<lambda>k. malformed) '':not-a-url'')
       = Some [CallCheckURL '':not-a-url'']
   \<and> map_option snd
        (CheckURLWithRetry (DefaultConfig\<lparr>GlobalRate := 0\<rparr>) (\<lambda>k. malformed) '':not-a-url'')
       = Some [CallCheckURL '':not-a-url'']"
proof -
  have p: "url_Parse malformed = Inl ''first path segment in URL cannot contain colon''"
    by (simp add: malformed_def)
  show ?thesis
    using CheckURL_invalid_url [OF p, of DefaultConfig "'':not-a-url''"]
      CheckURL_invalid_url [OF p, of "DefaultConfig\<lparr>GlobalRate := 0\<rparr>" "'':not-a-url''"]
    by (simp add: DefaultConfig_def)
qed

text \<open>
  C8 (as amended). For every request issued by a check, the client follows at most 2
  redirects, that is, it sends at most 3 requests: a chain of at most 2 redirects is
  followed to its end, and the outcome of the call is the answer to the last request; a
  chain that needs a third hop ends, after 2 redirects followed, in the error of the
  policy, wrapped by the client with the location refused, which the check reports as a
  failure of the transport: no success, kind \<open>request_failed\<close>, or \<open>timeout\<close> when the
  latency bound was reached.
\<close>

theorem CheckRedirect_limit:
  "redirects_followed srv url \<le> 2
   \<and> (\<forall>n code status.
        n \<le> 2 \<and> (\<forall>k<n. is_redirect (srv k)) \<and> srv n = Response code status \<longrightarrow>
        fst (clientDo srv url 0) = Inr (code, status) \<and> redirects_followed srv url = n)
   \<and> (\<forall>n err.
        n \<le> 2 \<and> (\<forall>k<n. is_redirect (srv k)) \<and> srv n = TransportError err \<longrightarrow>
        fst (clientDo srv url 0) = Inl (Text err) \<and> redirects_followed srv url = n)
   \<and> (\<forall>loc.
        (\<forall>k<2. is_redirect (srv k)) \<and> srv 2 = Redirect loc \<longrightarrow>
        fst (clientDo srv url 0) = Inl (url_Error ''Get'' loc ''stopped after 3 redirects'')
        \<and> redirects_followed srv url = 2)
   \<and> (url_Parse obs = Inr domain \<and> newRequest obs = None
        \<and> (\<forall>k<3. is_redirect (server obs k)) \<longrightarrow>
        \<not> Success (fst (CheckURL cfg obs targetURL))
        \<and> (if MaxLatency cfg \<le>s responseTime obs
           then Error (fst (CheckURL cfg obs targetURL)) = ''timeout''
           else Error (fst (CheckURL cfg obs targetURL)) = ''request_failed''))"
proof -
  have a: "fst (clientDo srv url 0) = Inr (code, status) \<and> redirects_followed srv url = n"
    if "n \<le> 2" "\<forall>k<n. is_redirect (srv k)" "srv n = Response code status" for n code status
    using clientDo_chain [OF that(1,2), of url] that(3) by (simp add: is_redirect_def)
  have b: "fst (clientDo srv url 0) = Inl (Text err) \<and> redirects_followed srv url = n"
    if "n \<le> 2" "\<forall>k<n. is_redirect (srv k)" "srv n = TransportError err" for n err
    using clientDo_chain [OF that(1,2), of url] that(3) by (simp add: is_redirect_def)
  have c: "\<not> Success (fst (CheckURL cfg obs targetURL))
        \<and> (if MaxLatency cfg \<le>s responseTime obs
           then Error (fst (CheckURL cfg obs targetURL)) = ''timeout''
           else Error (fst (CheckURL cfg obs targetURL)) = ''request_failed'')"
    if p: "url_Parse obs = Inr domain" "newRequest obs = None"
      and r: "\<forall>k<3. is_redirect (server obs k)"
  proof -
    from r have "\<forall>k<2. is_redirect (server obs k)"
      by simp
    moreover from r obtain loc where "server obs 2 = Redirect loc"
      using is_redirectE [of "server obs 2"] by auto
    ultimately have "fst (clientDo (server obs) targetURL 0)
        = Inl (url_Error ''Get'' loc ''stopped after 3 redirects'')"
      by (simp add: clientDo_refused)
    with p show ?thesis
      by (auto simp: CheckURL_def Let_def split: prod.splits sum.splits)
  qed
  from a b c redirects_followed_le_2 [of srv url] clientDo_refused [of srv _ url]
  show ?thesis
    by blast
qed

text \<open>
  Witness for C8: a chain of two redirects is followed to the response, and of a chain
  of three the third is refused.
\<close>

theorem CheckRedirect_limit_witness:
  "fst (clientDo (chain 2) ''https://example.com'' 0) = Inr (200, ''200 OK'')
   \<and> redirects_followed (chain 2) ''https://example.com'' = 2
   \<and> fst (clientDo (chain 3) ''https://example.com'' 0)
       = Inl (url_Error ''Get'' (hop 2) ''stopped after 3 redirects'')
   \<and> Error (fst (CheckURL DefaultConfig
        ((answer (Response 200 ''200 OK'') Second)\<lparr>server := chain 3\<rparr>)
        ''https://example.com'')) = ''request_failed''"
proof -
  let ?obs = "(answer (Response 200 ''200 OK'') Second)\<lparr>server := chain 3\<rparr>"
  let ?url = "''https://example.com''"
  have two: "(2::nat) \<le> 2 \<and> (\<forall>k<2. is_redirect (chain 2 k)) \<and> chain 2 2 = Response 200 ''200 OK''"
    by (simp add: chain_def is_redirect_def)
  have three: "(\<forall>k<2. is_redirect (chain 3 k)) \<and> chain 3 2 = Redirect (hop 2)"
    by (simp add: chain_def is_redirect_def)
  have obs: "url_Parse ?obs = Inr ''example.com'' \<and> newRequest ?obs = None
      \<and> (\<forall>k<3. is_redirect (server ?obs k))"
    by (simp add: answer_def chain_def is_redirect_def)
  have l: "\<not> MaxLatency DefaultConfig \<le>s responseTime ?obs"
    by (simp add: answer_def DefaultConfig_def Second_def word_sle_eq)
  note t2 = CheckRedirect_limit [of "chain 2" ?url ?obs "''example.com''" DefaultConfig ?url]
  note t3 = CheckRedirect_limit [of "chain 3" ?url ?obs "''example.com''" DefaultConfig ?url]
  from t2 two have a: "fst (clientDo (chain 2) ?url 0) = Inr (200, ''200 OK'')
      \<and> redirects_followed (chain 2) ?url = 2"
    by blast
  from t3 three have b: "fst (clientDo (chain 3) ?url 0)
      = Inl (url_Error ''Get'' (hop 2) ''stopped after 3 redirects'')"
    by blast
  from t3 obs have "if MaxLatency DefaultConfig \<le>s responseTime ?obs
      then Error (fst (CheckURL DefaultConfig ?obs ?url)) = ''timeout''
      else Error (fst (CheckURL DefaultConfig ?obs ?url)) = ''request_failed''"
    by blast
  with l have c: "Error (fst (CheckURL DefaultConfig ?obs ?url)) = ''request_failed''"
    by simp
  from a b c show ?thesis
    by simp
qed

text \<open>
  C8 as stated fails on a chain of exactly three redirects, which a client following up
  to 3 redirects would follow to the response 200 after them: the third redirect is
  refused, only two of them are followed, and the check fails with kind
  \<open>request_failed\<close>.
\<close>

theorem CheckRedirect_limit_counterexample:
  "chain 3 3 = Response 200 ''200 OK''
   \<and> clientDo (chain 3) ''https://example.com'' 0
       = (Inl (url_Error ''Get'' (hop 2) ''stopped after 3 redirects''),
          [''https://example.com'', hop 0, hop 1])
   \<and> redirects_followed (chain 3) ''https://example.com'' = 2
   \<and> \<not> Success (fst (CheckURL DefaultConfig
        ((answer (Response 200 ''200 OK'') Second)\<lparr>server := chain 3\<rparr>)
        ''https://example.com''))
   \<and> Error (fst (CheckURL DefaultConfig
        ((answer (Response 200 ''200 OK'') Second)\<lparr>server := chain 3\<rparr>)
        ''https://example.com'')) = ''request_failed''"
  by (simp add: chain_3 chain_3_refused redirects_followed_def CheckURL_def answer_def DefaultConfig_def
      Second_def word_sle_eq)

section \<open>Properties of the retry loop\<close>

lemma retry_loop_past:
  "Retries cfg < attempt \<Longrightarrow>
   retry_loop cfg env targetURL attempt made backoff result events = Some (result, events)"
  by (subst retry_loop.simps) simp

lemma CheckURL_call_returned:
  "CheckURL_call cfg obs targetURL = Some x \<Longrightarrow> x = CheckURL cfg obs targetURL"
  by (auto simp: CheckURL_call_def split: sum.splits option.splits)

lemma retry_loop_result:
  assumes "retry_loop cfg env targetURL attempt made backoff result events = Some y"
  shows "Retries cfg < attempt \<and> fst y = result
         \<or> (\<exists>k. fst y = Some (fst (CheckURL cfg (env k) targetURL)))"
proof (rule retry_loop.raw_induct
    [where P = "\<lambda>cfg env targetURL attempt made backoff result events y.
        Retries cfg < attempt \<and> fst y = result
        \<or> (\<exists>k. fst y = Some (fst (CheckURL cfg (env k) targetURL)))", OF _ assms])
  fix loop cfg env targetURL attempt made backoff result events
    and y :: "CheckResult option \<times> event list"
  assume IH: "\<And>cfg env targetURL attempt made backoff result events y.
      loop cfg env targetURL attempt made backoff result events = Some y \<Longrightarrow>
      Retries cfg < attempt \<and> fst y = result
      \<or> (\<exists>k. fst y = Some (fst (CheckURL cfg (env k) targetURL)))"
    and eq: "(if attempt \<le> Retries cfg then
        (let slept = (if 0 < attempt then events @ [Sleep backoff] else events);
             backoff = (if 0 < attempt then backoff * 2 else backoff)
         in case CheckURL_call cfg (env made) targetURL of
              None \<Rightarrow> None
            | Some (r, caused) \<Rightarrow>
                (let events = slept @ [CallCheckURL targetURL] @ caused
                 in if Success r \<or> (Error r \<noteq> ''timeout'' \<and> Error r \<noteq> ''request_failed'')
                    then Some (Some r, events)
                    else loop cfg env targetURL (increment attempt) (Suc made) backoff
                           (Some r) events))
      else Some (result, events)) = Some y"
  show "Retries cfg < attempt \<and> fst y = result
      \<or> (\<exists>k. fst y = Some (fst (CheckURL cfg (env k) targetURL)))"
  proof (cases "attempt \<le> Retries cfg")
    case False
    with eq show ?thesis
      by auto
  next
    case True
    with eq obtain r caused where call: "CheckURL_call cfg (env made) targetURL = Some (r, caused)"
      by (auto simp: Let_def split: option.splits)
    from CheckURL_call_returned [OF call] have r: "r = fst (CheckURL cfg (env made) targetURL)"
      by (metis fst_conv)
    show ?thesis
    proof (cases "Success r \<or> (Error r \<noteq> ''timeout'' \<and> Error r \<noteq> ''request_failed'')")
      case stop: True
      with eq True call have "fst y = Some r"
        by (auto simp: Let_def)
      with r show ?thesis
        by blast
    next
      case go: False
      with eq True call obtain slept backoff' where
        "loop cfg env targetURL (increment attempt) (Suc made) backoff' (Some r) slept = Some y"
        by (auto simp: Let_def)
      from IH [OF this] r show ?thesis
        by blast
    qed
  qed
qed

lemma CheckURLWithRetry_result:
  assumes "CheckURLWithRetry cfg env targetURL = Some (Some r, events)"
  shows "\<exists>k. r = fst (CheckURL cfg (env k) targetURL)"
  using retry_loop_result [OF assms [unfolded CheckURLWithRetry_def]] by auto

lemma CheckURLWithRetry_present:
  assumes "0 \<le> Retries cfg" and "CheckURLWithRetry cfg env targetURL = Some (result, events)"
  shows "result \<noteq> None"
  using retry_loop_result [OF assms(2) [unfolded CheckURLWithRetry_def]] assms(1) by auto

lemma CheckURLWithRetry_negative:
  "Retries cfg < 0 \<Longrightarrow> CheckURLWithRetry cfg env targetURL = Some (None, [])"
  by (simp add: CheckURLWithRetry_def retry_loop_past)

subsection \<open>The counter at the largest retry count\<close>

lemma increment_le_MaxInt: "increment n \<le> MaxInt"
  using signed_take_bit_int_less_exp [of 63 "n + 1"] by (simp add: increment_def MaxInt_def)

lemma increment_less: "n < MaxInt \<Longrightarrow> - (2 ^ 63) \<le> n \<Longrightarrow> increment n = n + 1"
  by (simp add: increment_def MaxInt_def signed_take_bit_int_eq_self)

lemma increment_MaxInt: "increment MaxInt = - (2 ^ 63)"
  by (simp add: increment_def MaxInt_def signed_take_bit_eq_take_bit_minus)

lemma timeout_attempt_call:
  "CheckURL_call (DefaultConfig\<lparr>Retries := r\<rparr>) timeout_attempt ''https://example.com''
     = Some (CheckURL (DefaultConfig\<lparr>Retries := r\<rparr>) timeout_attempt ''https://example.com'')"
  "Error (fst (CheckURL (DefaultConfig\<lparr>Retries := r\<rparr>) timeout_attempt ''https://example.com''))
     = ''timeout''"
  "\<not> Success (fst (CheckURL (DefaultConfig\<lparr>Retries := r\<rparr>) timeout_attempt ''https://example.com''))"
proof -
  have "snd (allow (fst (serve (newRateLimiter 50) (quiet 0))))"
    "snd (allow (fst (serve (newRateLimiter 5) (quiet 0))))"
    by (simp_all add: quiet_def newRateLimiter_def allow_def)
  then have "waitForRateLimit (newRateLimiter 50) quiet 0 \<noteq> None"
    "waitForRateLimit (newRateLimiter 5) quiet 0 \<noteq> None"
    by (subst waitForRateLimit.simps, simp add: case_prod_beta)+
  then show "CheckURL_call (DefaultConfig\<lparr>Retries := r\<rparr>) timeout_attempt ''https://example.com''
     = Some (CheckURL (DefaultConfig\<lparr>Retries := r\<rparr>) timeout_attempt ''https://example.com'')"
    by (auto simp: CheckURL_call_def waitForRateLimits_def timeout_attempt_def DefaultConfig_def
        split: option.splits)
  show "Error (fst (CheckURL (DefaultConfig\<lparr>Retries := r\<rparr>) timeout_attempt ''https://example.com''))
     = ''timeout''"
    by (simp add: CheckURL_def timeout_attempt_def DefaultConfig_def clientDo.simps [of _ _ 0]
        Second_def word_sle_eq)
  then show "\<not> Success (fst (CheckURL (DefaultConfig\<lparr>Retries := r\<rparr>) timeout_attempt ''https://example.com''))"
    by (simp add: CheckURL_def timeout_attempt_def DefaultConfig_def clientDo.simps [of _ _ 0]
        Second_def word_sle_eq)
qed

lemma retry_loop_MaxInt:
  assumes "retry_loop cfg env targetURL attempt made backoff result events = Some y"
  shows "\<not> (cfg = DefaultConfig\<lparr>Retries := MaxInt\<rparr> \<and> env = (\<lambda>k. timeout_attempt)
            \<and> targetURL = ''https://example.com'' \<and> attempt \<le> MaxInt)"
proof (rule retry_loop.raw_induct
    [where P = "\<lambda>cfg env targetURL attempt made backoff result events y.
        \<not> (cfg = DefaultConfig\<lparr>Retries := MaxInt\<rparr> \<and> env = (\<lambda>k. timeout_attempt)
            \<and> targetURL = ''https://example.com'' \<and> attempt \<le> MaxInt)", OF _ assms])
  fix loop cfg env targetURL attempt made backoff result events
    and y :: "CheckResult option \<times> event list"
  assume IH: "\<And>cfg env targetURL attempt made backoff result events y.
      loop cfg env targetURL attempt made backoff result events = Some y \<Longrightarrow>
      \<not> (cfg = DefaultConfig\<lparr>Retries := MaxInt\<rparr> \<and> env = (\<lambda>k. timeout_attempt)
            \<and> targetURL = ''https://example.com'' \<and> attempt \<le> MaxInt)"
    and eq: "(if attempt \<le> Retries cfg then
        (let slept = (if 0 < attempt then events @ [Sleep backoff] else events);
             backoff = (if 0 < attempt then backoff * 2 else backoff)
         in case CheckURL_call cfg (env made) targetURL of
              None \<Rightarrow> None
            | Some (r, caused) \<Rightarrow>
                (let events = slept @ [CallCheckURL targetURL] @ caused
                 in if Success r \<or> (Error r \<noteq> ''timeout'' \<and> Error r \<noteq> ''request_failed'')
                    then Some (Some r, events)
                    else loop cfg env targetURL (increment attempt) (Suc made) backoff
                           (Some r) events))
      else Some (result, events)) = Some y"
  show "\<not> (cfg = DefaultConfig\<lparr>Retries := MaxInt\<rparr> \<and> env = (\<lambda>k. timeout_attempt)
            \<and> targetURL = ''https://example.com'' \<and> attempt \<le> MaxInt)"
  proof
    assume a: "cfg = DefaultConfig\<lparr>Retries := MaxInt\<rparr> \<and> env = (\<lambda>k. timeout_attempt)
            \<and> targetURL = ''https://example.com'' \<and> attempt \<le> MaxInt"
    then have le: "attempt \<le> Retries cfg"
      by simp
    from a eq le timeout_attempt_call [of MaxInt] obtain slept backoff' r where
      "loop cfg env targetURL (increment attempt) (Suc made) backoff' (Some r) slept = Some y"
      by (auto simp: Let_def split: prod.splits)
    from IH [OF this] a increment_le_MaxInt [of attempt] show False
      by simp
  qed
qed

lemma CheckURLWithRetry_MaxInt:
  "CheckURLWithRetry (DefaultConfig\<lparr>Retries := MaxInt\<rparr>) (\<lambda>k. timeout_attempt)
     ''https://example.com'' = None"
proof (cases "CheckURLWithRetry (DefaultConfig\<lparr>Retries := MaxInt\<rparr>) (\<lambda>k. timeout_attempt)
     ''https://example.com''")
  case None
  then show ?thesis .
next
  case (Some y)
  from retry_loop_MaxInt [OF Some [unfolded CheckURLWithRetry_def]] show ?thesis
    by (simp add: MaxInt_def)
qed

subsection \<open>The loop within the range of its counter\<close>

lemma sleeps_append: "sleeps (xs @ ys) = sleeps xs @ sleeps ys"
  by (induction xs rule: sleeps.induct) simp_all

lemma calls_append: "calls (xs @ ys) = calls xs + calls ys"
  by (induction xs rule: calls.induct) simp_all

lemma sleeps_HttpGet: "sleeps (map HttpGet requested) = []"
  by (induction requested) simp_all

lemma calls_HttpGet: "calls (map HttpGet requested) = 0"
  by (induction requested) simp_all

lemma sleeps_CheckURL: "sleeps (snd (CheckURL cfg obs targetURL)) = []"
  by (auto simp: CheckURL_def Let_def sleeps_append sleeps_HttpGet
      split: sum.splits option.splits prod.splits if_splits)

lemma calls_CheckURL: "calls (snd (CheckURL cfg obs targetURL)) = 0"
  by (auto simp: CheckURL_def Let_def calls_append calls_HttpGet
      split: sum.splits option.splits prod.splits if_splits)

lemma upt_step: "a < n \<Longrightarrow> [a..<n] = a # [Suc a..<n]"
  by (simp add: upt_conv_Cons)

lemma retry_loop_run:
  assumes returns: "\<forall>k. CheckURL_call cfg (env k) targetURL \<noteq> None"
    and bound: "Retries cfg < MaxInt"
  shows "0 \<le> attempt \<Longrightarrow> attempt \<le> Retries cfg \<Longrightarrow> made = nat attempt \<Longrightarrow>
   backoff = backoff_delay (nat attempt - 1) \<Longrightarrow>
   \<exists>n. nat attempt < n \<and> int n \<le> Retries cfg + 1
     \<and> (\<forall>k. nat attempt \<le> k \<and> k < n - 1 \<longrightarrow> retryable (attempt_result cfg env targetURL k))
     \<and> (int n < Retries cfg + 1 \<longrightarrow> \<not> retryable (attempt_result cfg env targetURL (n - 1)))
     \<and> retry_loop cfg env targetURL attempt made backoff result events
         = Some (Some (attempt_result cfg env targetURL (n - 1)),
            events @ concat (map (attempt_events cfg env targetURL) [nat attempt..<n]))"
proof (induction "nat (Retries cfg - attempt)" arbitrary: attempt made backoff result events)
  case 0
  then have last: "attempt = Retries cfg"
    by simp
  let ?a = "nat attempt"
  let ?r = "attempt_result cfg env targetURL ?a"
  from returns obtain r caused where call: "CheckURL_call cfg (env ?a) targetURL = Some (r, caused)"
    by (metis not_None_eq surj_pair)
  from CheckURL_call_returned [OF call]
  have r: "r = ?r" and caused: "caused = snd (CheckURL cfg (env ?a) targetURL)"
    by (simp_all add: attempt_result_def prod_eq_iff)
  let ?slept = "if 0 < attempt then events @ [Sleep backoff] else events"
  let ?b = "if 0 < attempt then backoff * 2 else backoff"
  let ?ev = "?slept @ [CallCheckURL targetURL] @ caused"
  have ev: "?ev = events @ attempt_events cfg env targetURL ?a"
    using "0.prems" caused by (auto simp: attempt_events_def)
  have inc: "increment attempt = attempt + 1"
    using "0.prems" bound by (intro increment_less) simp_all
  have "retry_loop cfg env targetURL attempt made backoff result events = Some (Some r, ?ev)"
  proof (cases "Success r \<or> (Error r \<noteq> ''timeout'' \<and> Error r \<noteq> ''request_failed'')")
    case True
    with "0.prems" call show ?thesis
      by (subst retry_loop.simps) (simp add: Let_def)
  next
    case False
    with "0.prems" call
    have "retry_loop cfg env targetURL attempt made backoff result events
        = retry_loop cfg env targetURL (increment attempt) (Suc made) ?b (Some r) ?ev"
      by (subst retry_loop.simps) (auto simp: Let_def)
    with last inc show ?thesis
      by (simp add: retry_loop_past)
  qed
  then have "retry_loop cfg env targetURL attempt made backoff result events
        = Some (Some ?r, events @ concat (map (attempt_events cfg env targetURL) [?a..<Suc ?a]))"
    using ev r by simp
  with last "0.prems" show ?case
    by (intro exI [of _ "Suc ?a"]) auto
next
  case (Suc m)
  then have less: "attempt < Retries cfg"
    by simp
  let ?a = "nat attempt"
  let ?r = "attempt_result cfg env targetURL ?a"
  from returns obtain r caused where call: "CheckURL_call cfg (env ?a) targetURL = Some (r, caused)"
    by (metis not_None_eq surj_pair)
  from CheckURL_call_returned [OF call]
  have r: "r = ?r" and caused: "caused = snd (CheckURL cfg (env ?a) targetURL)"
    by (simp_all add: attempt_result_def prod_eq_iff)
  let ?slept = "if 0 < attempt then events @ [Sleep backoff] else events"
  let ?b = "if 0 < attempt then backoff * 2 else backoff"
  let ?ev = "?slept @ [CallCheckURL targetURL] @ caused"
  have ev: "?ev = events @ attempt_events cfg env targetURL ?a"
    using Suc.prems caused by (auto simp: attempt_events_def)
  have inc: "increment attempt = attempt + 1"
    using Suc.prems bound by (intro increment_less) simp_all
  show ?case
  proof (cases "retryable ?r")
    case False
    then have stop: "Success r \<or> (Error r \<noteq> ''timeout'' \<and> Error r \<noteq> ''request_failed'')"
      using r by (auto simp: retryable_def)
    have "retry_loop cfg env targetURL attempt made backoff result events = Some (Some r, ?ev)"
      using Suc.prems call stop by (subst retry_loop.simps) (simp add: Let_def)
    then have "retry_loop cfg env targetURL attempt made backoff result events
        = Some (Some ?r, events @ concat (map (attempt_events cfg env targetURL) [?a..<Suc ?a]))"
      using ev r by simp
    with False Suc.prems show ?thesis
      by (intro exI [of _ "Suc ?a"]) auto
  next
    case True
    then have go: "\<not> (Success r \<or> (Error r \<noteq> ''timeout'' \<and> Error r \<noteq> ''request_failed''))"
      using r by (auto simp: retryable_def)
    have step: "retry_loop cfg env targetURL attempt made backoff result events
        = retry_loop cfg env targetURL (attempt + 1) (Suc made) ?b (Some r) ?ev"
      using Suc.prems call go inc by (subst retry_loop.simps) (auto simp: Let_def)
    have b: "?b = backoff_delay (nat (attempt + 1) - 1)"
    proof (cases "0 < attempt")
      case True
      then obtain j where j: "nat attempt = Suc j"
        by (cases "nat attempt") auto
      then have "nat (attempt + 1) - 1 = Suc j" by simp
      with True Suc.prems j show ?thesis by (simp add: backoff_delay_def)
    next
      case False
      with Suc.prems show ?thesis by simp
    qed
    have suc: "nat (attempt + 1) = Suc ?a"
      using Suc.prems by simp
    have m: "m = nat (Retries cfg - (attempt + 1))"
      using Suc.hyps(2) by simp
    have "\<exists>n. nat (attempt + 1) < n \<and> int n \<le> Retries cfg + 1
       \<and> (\<forall>k. nat (attempt + 1) \<le> k \<and> k < n - 1 \<longrightarrow> retryable (attempt_result cfg env targetURL k))
       \<and> (int n < Retries cfg + 1 \<longrightarrow> \<not> retryable (attempt_result cfg env targetURL (n - 1)))
       \<and> retry_loop cfg env targetURL (attempt + 1) (Suc made) ?b (Some r) ?ev
           = Some (Some (attempt_result cfg env targetURL (n - 1)),
              ?ev @ concat (map (attempt_events cfg env targetURL) [nat (attempt + 1)..<n]))"
      using Suc.prems less suc b by (intro Suc.hyps(1) [OF m]) simp_all
    then obtain n where n: "nat (attempt + 1) < n" "int n \<le> Retries cfg + 1"
      "\<forall>k. nat (attempt + 1) \<le> k \<and> k < n - 1 \<longrightarrow> retryable (attempt_result cfg env targetURL k)"
      "int n < Retries cfg + 1 \<longrightarrow> \<not> retryable (attempt_result cfg env targetURL (n - 1))"
      "retry_loop cfg env targetURL (attempt + 1) (Suc made) ?b (Some r) ?ev
           = Some (Some (attempt_result cfg env targetURL (n - 1)),
              ?ev @ concat (map (attempt_events cfg env targetURL) [nat (attempt + 1)..<n]))"
      by blast
    have "[?a..<n] = ?a # [Suc ?a..<n]"
      using n(1) suc by (intro upt_step) simp
    then have evs: "?ev @ concat (map (attempt_events cfg env targetURL) [nat (attempt + 1)..<n])
        = events @ concat (map (attempt_events cfg env targetURL) [?a..<n])"
      using ev suc by simp
    have all: "\<forall>k. ?a \<le> k \<and> k < n - 1 \<longrightarrow> retryable (attempt_result cfg env targetURL k)"
    proof (intro allI impI)
      fix k assume k: "?a \<le> k \<and> k < n - 1"
      show "retryable (attempt_result cfg env targetURL k)"
      proof (cases "k = ?a")
        case True with \<open>retryable ?r\<close> show ?thesis by simp
      next
        case False
        with k suc have "nat (attempt + 1) \<le> k \<and> k < n - 1" by simp
        with n(3) show ?thesis by blast
      qed
    qed
    show ?thesis
      using n(1,2,4) suc all step n(5) evs
      by (intro exI [of _ n]) simp
  qed
qed

lemma sleeps_attempts:
  "sleeps (concat (map (attempt_events cfg env targetURL) [0..<n])) = map backoff_delay [0..<n - 1]"
proof (induction n)
  case 0
  show ?case by simp
next
  case (Suc n)
  show ?case
  proof (cases n)
    case 0
    then show ?thesis
      by (simp add: attempt_events_def sleeps_CheckURL)
  next
    case (Suc m)
    with Suc.IH show ?thesis
      by (simp add: attempt_events_def sleeps_append sleeps_CheckURL)
  qed
qed

lemma calls_attempts:
  "calls (concat (map (attempt_events cfg env targetURL) [0..<n])) = n"
  by (induction n) (simp_all add: attempt_events_def calls_append calls_CheckURL)

lemma sint_duration_of_int:
  "- (2 ^ 63) \<le> x \<Longrightarrow> x < 2 ^ 63 \<Longrightarrow> sint (word_of_int x :: duration) = x"
  by (simp add: sint_sbintrunc' signed_take_bit_int_eq_self)

lemma sint_backoff_delay: "k \<le> 33 \<Longrightarrow> sint (backoff_delay k) = 1000000000 * 2 ^ k"
proof -
  assume k: "k \<le> 33"
  define p :: int where "p = 2 ^ k"
  have "p \<le> 2 ^ 33"
    unfolding p_def using k by (intro power_increasing) simp_all
  moreover have "0 < p"
    unfolding p_def by simp
  ultimately have bound: "- (2 ^ 63) \<le> 1000000000 * p" "1000000000 * p < 2 ^ 63"
    by simp_all
  have "backoff_delay k = word_of_int (1000000000 * p)"
    by (simp add: backoff_delay_def Second_def p_def)
  then have "sint (backoff_delay k) = 1000000000 * p"
    by (simp only: sint_duration_of_int [OF bound])
  then show ?thesis
    by (simp add: p_def)
qed

text \<open>
  Where the retry policy holds of the code: for a retry count r from 0 to below the
  largest \<^verbatim>\<open>int\<close>, when every call of \<^verbatim>\<open>CheckURL\<close> returns, the loop makes n attempts with
  1 <= n <= r + 1; its events are those of the attempts in order, with a sleep before
  each attempt after the first and nowhere else; every attempt but the last was a retried
  failure, the loop stops before attempt r + 1 only at a result that is not retried, and
  the result returned is that of the last attempt; when every attempt yields kind
  \<open>timeout\<close>, there are exactly r + 1 attempts. The delays slept are one second doubled
  in \<^verbatim>\<open>int64\<close> nanoseconds, which is 1, 2, 4, ... seconds up to the 34th delay.
\<close>

lemma CheckURLWithRetry_attempts:
  assumes "0 \<le> Retries cfg" and "Retries cfg < MaxInt"
    and "\<forall>k. CheckURL_call cfg (env k) targetURL \<noteq> None"
  shows "\<exists>n events. 1 \<le> n \<and> int n \<le> Retries cfg + 1
     \<and> CheckURLWithRetry cfg env targetURL
          = Some (Some (attempt_result cfg env targetURL (n - 1)), events)
     \<and> calls events = n
     \<and> events = concat (map (attempt_events cfg env targetURL) [0..<n])
     \<and> sleeps events = map backoff_delay [0..<n - 1]
     \<and> (\<forall>k<n - 1. retryable (attempt_result cfg env targetURL k))
     \<and> (int n < Retries cfg + 1 \<longrightarrow> \<not> retryable (attempt_result cfg env targetURL (n - 1)))
     \<and> ((\<forall>k. Error (attempt_result cfg env targetURL k) = ''timeout'') \<longrightarrow> int n = Retries cfg + 1)
     \<and> (\<forall>k\<le>33. sint (backoff_delay k) = 1000000000 * 2 ^ k)"
proof -
  have "Second = backoff_delay (nat 0 - 1)"
    by (simp add: backoff_delay_def)
  from retry_loop_run [OF assms(3,2) _ assms(1) _ this, of 0 None "[]"]
  obtain n where n: "0 < n" "int n \<le> Retries cfg + 1"
    "\<forall>k. k < n - 1 \<longrightarrow> retryable (attempt_result cfg env targetURL k)"
    "int n < Retries cfg + 1 \<longrightarrow> \<not> retryable (attempt_result cfg env targetURL (n - 1))"
    "CheckURLWithRetry cfg env targetURL
       = Some (Some (attempt_result cfg env targetURL (n - 1)),
          concat (map (attempt_events cfg env targetURL) [0..<n]))"
    unfolding CheckURLWithRetry_def by auto
  have "int n = Retries cfg + 1" if "\<forall>k. Error (attempt_result cfg env targetURL k) = ''timeout''"
  proof -
    have "retryable (attempt_result cfg env targetURL (n - 1))"
      using that timeout_not_success [of cfg "env (n - 1)" targetURL]
      by (simp add: retryable_def attempt_result_def)
    with n(2,4) show ?thesis by auto
  qed
  with n show ?thesis
    by (intro exI [of _ n] exI [of _ "concat (map (attempt_events cfg env targetURL) [0..<n])"])
      (simp add: sleeps_attempts calls_attempts sint_backoff_delay)
qed

subsection \<open>The claims on the retry loop\<close>

text \<open>
  C1 does not hold of the code. The claim is that of the comment of the loop, an
  exponential backoff, and the code breaks it where its arithmetic overflows: the delay
  is an \<^verbatim>\<open>int64\<close> count of nanoseconds that \<^verbatim>\<open>backoff *= 2\<close> doubles without a guard. With a
  retry count of 35 against a target whose every attempt yields kind \<open>timeout\<close>, 36
  attempts occur and the last result is returned, as claimed, and the delay before
  attempt 35 is 2^33 seconds, as claimed; but the delay before attempt 36 is
  -1266874889709551616 ns, which is not 2^34 seconds (\<^verbatim>\<open>time.Sleep\<close> returns at once on
  it).
\<close>

theorem CheckURLWithRetry_backoff_overflow:
  "map_option
     (\<lambda>(result, events).
        (map_option Error result, calls events, length (sleeps events),
         map sint (drop 33 (sleeps events))))
     (CheckURLWithRetry (DefaultConfig\<lparr>Retries := 35\<rparr>) (\<lambda>k. timeout_attempt)
        ''https://example.com'')
     = Some (Some ''timeout'', 36, 35, [2 ^ 33 * 1000000000, - 1266874889709551616])
   \<and> - 1266874889709551616 \<noteq> (2 ^ 34 * 1000000000 :: int)"
  by code_simp

text \<open>
  C10 (as amended). The retry loop returns a result that is present exactly when the
  retry count is not negative. With a negative retry count the loop body never runs (no
  attempt, no event) and the nil pointer is returned. Of the consumers of the result, the
  collection of the results stores the nil pointer like any other and reads nothing
  through it; the statistics panic on any list of results that holds it, and so do the
  handlers, which collect the results and then summarise them.
\<close>

theorem CheckURLWithRetry_nil:
  "(Retries cfg < 0 \<longrightarrow> CheckURLWithRetry cfg env targetURL = Some (None, []))
   \<and> (0 \<le> Retries cfg \<longrightarrow> CheckURLWithRetry cfg env targetURL \<noteq> Some (None, events))
   \<and> collect received [] = Inr received
   \<and> (None \<in> set received \<longrightarrow>
        CalculateStatistics received totalDuration = Inl NilPointerDereference
        \<and> collect_and_summarize received totalDuration = Inl NilPointerDereference)"
proof -
  have c: "collect xs results = Inr (results @ xs)" for xs results
    by (induction xs arbitrary: results) simp_all
  have s: "CalculateStatistics received totalDuration = Inl NilPointerDereference"
    if "None \<in> set received"
  proof -
    from that have "received \<noteq> []" by auto
    with that show ?thesis
      by (simp add: CalculateStatistics_def count_results_nil)
  qed
  from CheckURLWithRetry_negative [of cfg env targetURL]
    CheckURLWithRetry_present [of cfg env targetURL None events] c [of received "[]"] s
  show ?thesis
    by (auto simp: collect_and_summarize_def)
qed

text \<open>
  Witness for C10: a retry count of -1, and the default configuration; a list of results
  with the nil pointer in it.
\<close>

theorem CheckURLWithRetry_nil_witness:
  "CheckURLWithRetry (DefaultConfig\<lparr>Retries := - 1\<rparr>) (\<lambda>k. timeout_attempt) ''https://example.com''
     = Some (None, [])
   \<and> CheckURLWithRetry DefaultConfig (\<lambda>k. timeout_attempt) ''https://example.com''
     \<noteq> Some (None, [])
   \<and> collect [Some (probe True 30 40), None] [] = Inr [Some (probe True 30 40), None]
   \<and> CalculateStatistics [Some (probe True 30 40), None] 80 = Inl NilPointerDereference
   \<and> collect_and_summarize [Some (probe True 30 40), None] 80 = Inl NilPointerDereference"
  using CheckURLWithRetry_nil [of "DefaultConfig\<lparr>Retries := - 1\<rparr>" "\<lambda>k. timeout_attempt"
      "''https://example.com''" "[]" "[Some (probe True 30 40), None]" 80]
    CheckURLWithRetry_nil [of DefaultConfig "\<lambda>k. timeout_attempt"
      "''https://example.com''" "[]" "[Some (probe True 30 40), None]" 80]
  by (simp add: DefaultConfig_def)

text \<open>
  C10 as stated fails for the collection of the results: with a retry count of -1 the
  dispatcher sends the nil pointer as the result of the URL and returns, and the
  collection stores the nil pointer received without a panic; only the statistics panic.
\<close>

theorem CheckURLWithRetry_nil_counterexample:
  "task_result no_attempt 0 = Some None
   \<and> map_sum id (map_option (\<lambda>s. (main s, resultChan s)))
        (CheckURLs no_attempt (Main # turn 0 @ [Main, Main, Main]))
      = Inr (Some (Returned, [None]))
   \<and> collect [None] [] = Inr [None]
   \<and> CalculateStatistics [None] 80 = Inl NilPointerDereference"
  by code_simp

section \<open>Properties of the dispatcher\<close>

lemma rank_le_9: "rank pc \<le> 9"
  by (cases pc) simp_all

lemma at_least_le_length: "at_least n gs \<le> length gs"
  by (simp add: at_least_def)

lemma at_least_antimono: "m \<le> n \<Longrightarrow> at_least n gs \<le> at_least m gs"
proof (induction gs)
  case Nil
  show ?case by (simp add: at_least_def)
next
  case (Cons g gs)
  then show ?case by (auto simp: at_least_def)
qed

lemma at_least_snoc:
  "at_least n (gs @ [pc]) = at_least n gs + (if n \<le> rank pc then 1 else 0)"
  by (simp add: at_least_def)

lemma at_least_advance:
  "i < length gs \<Longrightarrow> rank pc' = Suc (rank (gs ! i)) \<Longrightarrow>
   at_least n (gs[i := pc']) = at_least n gs + (if n = Suc (rank (gs ! i)) then 1 else 0)"
proof (induction gs arbitrary: i)
  case Nil
  then show ?case by simp
next
  case (Cons g gs)
  show ?case
  proof (cases i)
    case 0
    with Cons.prems show ?thesis
      by (auto simp: at_least_def)
  next
    case (Suc j)
    with Cons.prems Cons.IH [of j] show ?thesis
      by (auto simp: at_least_def)
  qed
qed

lemma at_least_member:
  "i < length gs \<Longrightarrow> at_least (Suc (rank (gs ! i))) gs < at_least (rank (gs ! i)) gs"
proof (induction gs arbitrary: i)
  case Nil
  then show ?case by simp
next
  case (Cons g gs)
  show ?case
  proof (cases i)
    case 0
    have "at_least (Suc (rank g)) gs \<le> at_least (rank g) gs"
      by (intro at_least_antimono) simp
    with 0 show ?thesis
      by (simp add: at_least_def)
  next
    case (Suc j)
    with Cons.prems Cons.IH [of j] show ?thesis
      by (auto simp: at_least_def)
  qed
qed

lemma at_least_gap:
  "at_least m gs < at_least n gs \<Longrightarrow> \<exists>i<length gs. n \<le> rank (gs ! i) \<and> rank (gs ! i) < m"
proof (induction gs)
  case Nil
  then show ?case by (simp add: at_least_def)
next
  case (Cons g gs)
  show ?case
  proof (cases "n \<le> rank g \<and> rank g < m")
    case True
    then show ?thesis by (intro exI [of _ 0]) simp
  next
    case False
    with Cons.prems have "at_least m gs < at_least n gs"
      by (auto simp: at_least_def split: if_splits)
    from Cons.IH [OF this] obtain i where "i < length gs" "n \<le> rank (gs ! i)" "rank (gs ! i) < m"
      by blast
    then show ?thesis by (intro exI [of _ "Suc i"]) simp
  qed
qed

lemma at_least_9_all:
  "at_least 9 gs = length gs \<longleftrightarrow> list_all (\<lambda>pc. pc = Exited) gs"
proof (induction gs)
  case Nil
  show ?case by (simp add: at_least_def)
next
  case (Cons g gs)
  have "length (filter (\<lambda>pc. 9 \<le> rank pc) gs) \<noteq> Suc (length gs)"
    using length_filter_le [of "\<lambda>pc. 9 \<le> rank pc" gs] by linarith
  moreover have "9 \<le> rank g \<longleftrightarrow> g = Exited"
    by (cases g) simp_all
  ultimately show ?case
    using Cons.IH by (auto simp: at_least_def)
qed

lemma remaining_advance:
  "i < length gs \<Longrightarrow> rank pc' = Suc (rank (gs ! i)) \<Longrightarrow>
   sum_list (map (\<lambda>pc. 9 - rank pc) gs) = Suc (sum_list (map (\<lambda>pc. 9 - rank pc) (gs[i := pc'])))"
proof (induction gs arbitrary: i)
  case Nil
  then show ?case by simp
next
  case (Cons g gs)
  show ?case
  proof (cases i)
    case 0
    with Cons.prems rank_le_9 [of pc'] show ?thesis
      by simp
  next
    case (Suc j)
    with Cons.prems Cons.IH [of j] show ?thesis
      by simp
  qed
qed

lemma senders_same:
  "i < length gs \<Longrightarrow> (3 \<le> rank pc') = (3 \<le> rank (gs ! i)) \<Longrightarrow>
   senders (gs[i := pc']) = senders gs"
  unfolding senders_def
  by (auto intro!: filter_cong simp: nth_list_update)

lemma senders_snoc:
  "senders (gs @ [AtSemaphore]) = senders gs"
  unfolding senders_def
  by (auto intro!: filter_cong simp: nth_append)

lemma count_senders:
  "Multiset.count (mset (senders gs)) j
     = (if j < length gs \<and> 3 \<le> rank (gs ! j) then 1 else 0)"
  unfolding senders_def by (simp add: mset_filter)

lemma senders_send:
  "i < length gs \<Longrightarrow> rank (gs ! i) < 3 \<Longrightarrow> 3 \<le> rank pc' \<Longrightarrow>
   mset (senders (gs[i := pc'])) = add_mset i (mset (senders gs))"
  by (rule multiset_eqI) (auto simp: count_senders nth_list_update)

lemma senders_all:
  "list_all (\<lambda>pc. pc = Exited) gs \<Longrightarrow> senders gs = [0..<length gs]"
  unfolding senders_def
  by (auto simp: list_all_length filter_id_conv)

lemma at_least_chain:
  "at_least 9 gs \<le> at_least 8 gs" "at_least 8 gs \<le> at_least 7 gs"
  "at_least 7 gs \<le> at_least 6 gs" "at_least 6 gs \<le> at_least 5 gs"
  "at_least 5 gs \<le> at_least 4 gs" "at_least 4 gs \<le> at_least 3 gs"
  "at_least 3 gs \<le> at_least 1 gs" "at_least 1 gs \<le> length gs"
  by (simp_all add: at_least_antimono at_least_le_length)

lemma start_invariant:
  "CheckURLs_start b = Inr s \<Longrightarrow> invariant b s \<and> remaining b s = 10 * length (urls b) + 3"
  by (auto simp: CheckURLs_start_def invariant_def remaining_def at_least_def steps_left_def
      senders_def split: if_splits)

lemma exited_no_steps_left:
  "list_all (\<lambda>pc. pc = Exited) gs \<Longrightarrow> sum_list (map (\<lambda>pc. 9 - rank pc) gs) = 0"
  by (induction gs) simp_all

lemma main_step_invariant:
  assumes "invariant b s" and "main_step b s = Some s'"
  shows "invariant b s' \<and> remaining b s = Suc (remaining b s')"
proof (cases "main s")
  case Spawning
  show ?thesis
  proof (cases "length (goroutines s) < length (urls b)")
    case True
    with Spawning assms have s': "s' = s\<lparr>goroutines := goroutines s @ [AtSemaphore]\<rparr>"
      by (simp add: main_step_def)
    from assms(1) True Spawning show ?thesis
      unfolding s' by (simp add: invariant_def remaining_def at_least_snoc senders_snoc)
  next
    case False
    with Spawning assms have all: "list_all (\<lambda>pc. pc = Exited) (goroutines s)"
      and s': "s' = s\<lparr>main := ClosingResults\<rparr>"
      by (simp_all add: main_step_def split: if_splits)
    from all have "at_least 9 (goroutines s) = length (goroutines s)"
      by (simp add: at_least_9_all)
    with assms(1) False Spawning show ?thesis
      unfolding s' by (simp add: invariant_def remaining_def steps_left_def)
  qed
next
  case ClosingResults
  with assms show ?thesis
    by (auto simp: main_step_def invariant_def remaining_def steps_left_def)
next
  case ClosingProgress
  with assms show ?thesis
    by (auto simp: main_step_def invariant_def remaining_def steps_left_def)
next
  case Returned
  with assms show ?thesis
    by (simp add: main_step_def)
qed

lemma goroutine_step_invariant:
  assumes inv: "invariant b s" and step: "goroutine_step b i s = Some s'"
  shows "invariant b s' \<and> remaining b s = Suc (remaining b s')"
proof -
  let ?gs = "goroutines s"
  from step have i: "i < length ?gs"
    by (simp add: goroutine_step_def split: if_splits)
  note mem = at_least_member [OF i]
  note chain = at_least_chain [of ?gs]
  have adv: "at_least n (?gs[i := pc']) = at_least n ?gs + (if n = Suc (rank (?gs ! i)) then 1 else 0)"
    if "rank pc' = Suc (rank (?gs ! i))" for n pc'
    using i that by (rule at_least_advance)
  have rem: "sum_list (map (\<lambda>pc. 9 - rank pc) ?gs)
      = Suc (sum_list (map (\<lambda>pc. 9 - rank pc) (?gs[i := pc'])))"
    if "rank pc' = Suc (rank (?gs ! i))" for pc'
    using i that by (rule remaining_advance)
  from inv have I:
    "length ?gs \<le> length (urls b)"
    "semaphore s + at_least 8 ?gs = at_least 1 ?gs"
    "at_least 4 ?gs = at_least 7 ?gs + (if completedMutex s then 1 else 0)"
    "completed s = int (at_least 5 ?gs)"
    "length (resultChan s) = at_least 3 ?gs"
    "Some ` set (resultChan s) \<subseteq> task_result b ` {..<length (urls b)}"
    "progressChan s = (if progressWanted b then map int [1..<Suc (at_least 6 ?gs)] else [])"
    "main s = Spawning \<or> length ?gs = length (urls b) \<and> at_least 9 ?gs = length (urls b)"
    "resultClosed s \<longleftrightarrow> main s = ClosingProgress \<or> main s = Returned"
    "progressClosed s \<longleftrightarrow> main s = Returned \<and> progressWanted b"
    "mset (map Some (resultChan s)) = image_mset (task_result b) (mset (senders ?gs))"
    by (simp_all add: invariant_def)
  note same = senders_same [OF i]
  note send = senders_send [OF i]
  from I(1) i have iN: "task_result b i \<in> task_result b ` {..<length (urls b)}"
    by simp
  have sp: "main s = Spawning"
  proof (rule ccontr)
    assume "main s \<noteq> Spawning"
    with I(8) have "at_least 9 ?gs = length ?gs"
      by simp
    then have "list_all (\<lambda>pc. pc = Exited) ?gs"
      by (simp add: at_least_9_all)
    with i have "?gs ! i = Exited"
      by (simp add: list_all_length)
    with step i show False
      by (simp add: goroutine_step_def)
  qed
  show ?thesis
  proof (cases "?gs ! i")
    case AtSemaphore
    from step i AtSemaphore have s': "s' = s\<lparr>goroutines := ?gs[i := AtCheck],
        semaphore := Suc (semaphore s)\<rparr>"
      by (simp add: goroutine_step_def split: if_splits)
    have "invariant b s'"
      unfolding s' invariant_def using I sp 
      by (simp add: adv AtSemaphore same)
    moreover have "remaining b s = Suc (remaining b s')"
      unfolding s' remaining_def using rem [of AtCheck] by (simp add: AtSemaphore)
    ultimately show ?thesis ..
  next
    case AtCheck
    from step i AtCheck have s': "s' = s\<lparr>goroutines := ?gs[i := AtSend]\<rparr>"
      by (auto simp: goroutine_step_def split: option.splits)
    have "invariant b s'"
      unfolding s' invariant_def using I sp 
      by (simp add: adv AtCheck same)
    moreover have "remaining b s = Suc (remaining b s')"
      unfolding s' remaining_def using rem [of AtSend] by (simp add: AtCheck)
    ultimately show ?thesis ..
  next
    case AtSend
    from step i AtSend obtain result where result: "task_result b i = Some result"
      and s': "s' = s\<lparr>goroutines := ?gs[i := AtLock],
        resultChan := resultChan s @ [result]\<rparr>"
      by (auto simp: goroutine_step_def split: option.splits if_splits)
    from iN result have sent: "Some result \<in> task_result b ` {..<length (urls b)}"
      by simp
    have "invariant b s'"
      unfolding s' invariant_def using I sp sent
      by (simp add: adv AtSend send result)
    moreover have "remaining b s = Suc (remaining b s')"
      unfolding s' remaining_def using rem [of AtLock] by (simp add: AtSend)
    ultimately show ?thesis ..
  next
    case AtLock
    with step i have free: "\<not> completedMutex s"
      by (simp add: goroutine_step_def split: if_splits)
    from step i AtLock have s': "s' = s\<lparr>goroutines := ?gs[i := AtIncrement],
        completedMutex := True\<rparr>"
      by (simp add: goroutine_step_def split: if_splits)
    have "invariant b s'"
      unfolding s' invariant_def using I sp free
      by (simp add: adv AtLock same)
    moreover have "remaining b s = Suc (remaining b s')"
      unfolding s' remaining_def using rem [of AtIncrement] by (simp add: AtLock)
    ultimately show ?thesis ..
  next
    case AtIncrement
    from step i AtIncrement have s': "s' = s\<lparr>goroutines := ?gs[i := AtProgress],
        completed := completed s + 1\<rparr>"
      by (simp add: goroutine_step_def )
    have "invariant b s'"
      unfolding s' invariant_def using I sp 
      by (simp add: adv AtIncrement same)
    moreover have "remaining b s = Suc (remaining b s')"
      unfolding s' remaining_def using rem [of AtProgress] by (simp add: AtIncrement)
    ultimately show ?thesis ..
  next
    case AtProgress
    from step i AtProgress have s': "s' = s\<lparr>goroutines := ?gs[i := AtUnlock],
        progressChan := (if progressWanted b then progressChan s @ [completed s]
                         else progressChan s)\<rparr>"
      by (auto simp: goroutine_step_def split: if_splits)
    have key: "at_least 5 ?gs = Suc (at_least 6 ?gs)"
      using I(3) mem chain(3,5) by (simp add: AtProgress split: if_splits)
    have "invariant b s'"
      unfolding s' invariant_def using I sp key
      by (simp add: adv AtProgress same)
    moreover have "remaining b s = Suc (remaining b s')"
      unfolding s' remaining_def using rem [of AtUnlock] by (simp add: AtProgress)
    ultimately show ?thesis ..
  next
    case AtUnlock
    from step i AtUnlock have s': "s' = s\<lparr>goroutines := ?gs[i := AtRelease],
        completedMutex := False\<rparr>"
      by (simp add: goroutine_step_def )
    have key: "completedMutex s" "at_least 4 ?gs = Suc (at_least 7 ?gs)"
      using I(3) mem chain(4,5) by (simp_all add: AtUnlock split: if_splits)
    have "invariant b s'"
      unfolding s' invariant_def using I sp key
      by (simp add: adv AtUnlock same)
    moreover have "remaining b s = Suc (remaining b s')"
      unfolding s' remaining_def using rem [of AtRelease] by (simp add: AtUnlock)
    ultimately show ?thesis ..
  next
    case AtRelease
    from step i AtRelease have s': "s' = s\<lparr>goroutines := ?gs[i := AtDone],
        semaphore := semaphore s - 1\<rparr>"
      by (simp add: goroutine_step_def )
    have key: "0 < semaphore s"
      using I(2) mem at_least_antimono [of 1 7 ?gs] by (simp add: AtRelease)
    have "invariant b s'"
      unfolding s' invariant_def using I sp key
      by (simp add: adv AtRelease same)
    moreover have "remaining b s = Suc (remaining b s')"
      unfolding s' remaining_def using rem [of AtDone] by (simp add: AtRelease)
    ultimately show ?thesis ..
  next
    case AtDone
    from step i AtDone have s': "s' = s\<lparr>goroutines := ?gs[i := Exited]\<rparr>"
      by (simp add: goroutine_step_def )
    have "invariant b s'"
      unfolding s' invariant_def using I sp 
      by (simp add: adv AtDone same)
    moreover have "remaining b s = Suc (remaining b s')"
      unfolding s' remaining_def using rem [of Exited] by (simp add: AtDone)
    ultimately show ?thesis ..
  next
    case Exited
    with step i show ?thesis
      by (simp add: goroutine_step_def)
  qed
qed

lemma step_invariant:
  "invariant b s \<Longrightarrow> step b c s = Some s' \<Longrightarrow>
   invariant b s' \<and> remaining b s = Suc (remaining b s')"
proof (cases c)
  case Main
  assume "invariant b s" "step b c s = Some s'"
  with Main show ?thesis
    by (intro main_step_invariant) simp_all
next
  case (Goroutine i)
  assume "invariant b s" "step b c s = Some s'"
  with Goroutine show ?thesis
    by (intro goroutine_step_invariant [of b s i]) simp_all
qed

lemma run_invariant:
  "invariant b s \<Longrightarrow> run b schedule s = Some s' \<Longrightarrow>
   invariant b s' \<and> remaining b s = length schedule + remaining b s'"
proof (induction schedule arbitrary: s)
  case Nil
  then show ?case by simp
next
  case (Cons c cs)
  from Cons.prems(2) obtain s1 where s1: "step b c s = Some s1" "run b cs s1 = Some s'"
    by (auto split: option.splits)
  from step_invariant [OF Cons.prems(1) s1(1)]
  have "invariant b s1" and r: "remaining b s = Suc (remaining b s1)"
    by simp_all
  from Cons.IH [OF this(1) s1(2)] r show ?case
    by simp
qed

lemma enabled_Main: "main_step b s \<noteq> None \<Longrightarrow> enabled b s \<noteq> []"
  by (simp add: enabled_def)

lemma enabled_Goroutine:
  "i < length (goroutines s) \<Longrightarrow> goroutine_step b i s \<noteq> None \<Longrightarrow> enabled b s \<noteq> []"
  by (auto simp: enabled_def filter_empty_conv intro!: bexI [of _ "Goroutine i"])

lemma all_exited:
  "\<forall>i<length gs. rank (gs ! i) = 9 \<Longrightarrow> list_all (\<lambda>pc. pc = Exited) gs"
proof -
  assume a: "\<forall>i<length gs. rank (gs ! i) = 9"
  have "rank pc = 9 \<Longrightarrow> pc = Exited" for pc
    by (cases pc) simp_all
  with a show ?thesis
    by (simp add: list_all_length)
qed

lemma no_slot_held:
  "\<forall>i<length gs. rank (gs ! i) = 0 \<or> rank (gs ! i) = 9 \<Longrightarrow> at_least 1 gs = at_least 8 gs"
proof -
  assume a: "\<forall>i<length gs. rank (gs ! i) = 0 \<or> rank (gs ! i) = 9"
  have "filter (\<lambda>pc. 1 \<le> rank pc) gs = filter (\<lambda>pc. 8 \<le> rank pc) gs"
  proof (rule filter_cong [OF refl])
    fix pc assume "pc \<in> set gs"
    then obtain i where "i < length gs" "gs ! i = pc"
      by (auto simp: in_set_conv_nth)
    with a have "rank pc = 0 \<or> rank pc = 9" by auto
    then show "(1 \<le> rank pc) = (8 \<le> rank pc)" by auto
  qed
  then show ?thesis
    by (simp add: at_least_def)
qed

lemma goroutine_can_move:
  assumes inv: "invariant b s"
    and returns: "\<forall>i<length (urls b). task b i \<noteq> None"
    and results: "\<forall>k<length (urls b). resultAccepted b k"
    and progress: "progressWanted b \<longrightarrow> (\<forall>k<length (urls b). progressAccepted b k)"
    and i: "i < length (goroutines s)"
    and at: "rank (goroutines s ! i) \<noteq> 0" "rank (goroutines s ! i) \<noteq> 9"
      "rank (goroutines s ! i) = 3 \<longrightarrow> \<not> completedMutex s"
  shows "goroutine_step b i s \<noteq> None"
proof -
  let ?gs = "goroutines s"
  from inv have n: "length ?gs \<le> length (urls b)"
    by (simp add: invariant_def)
  with i returns have t: "task b i \<noteq> None"
    by simp
  note mem = at_least_member [OF i]
  show ?thesis
  proof (cases "?gs ! i")
    case AtSend
    from inv have "length (resultChan s) = at_least 3 ?gs"
      by (simp add: invariant_def)
    also from mem at_least_le_length [of 2 ?gs] n have "at_least 3 ?gs < length (urls b)"
      by (simp add: AtSend numeral_3_eq_3 numeral_2_eq_2)
    finally have "resultAccepted b (length (resultChan s))"
      using results by simp
    with i t show ?thesis
      by (simp add: goroutine_step_def AtSend task_result_def split: option.splits)
  next
    case AtProgress
    have "progressAccepted b (length (progressChan s))" if w: "progressWanted b"
    proof -
      from inv w have "length (progressChan s) = at_least 6 ?gs"
        by (simp add: invariant_def)
      also from mem at_least_le_length [of 5 ?gs] n have "at_least 6 ?gs < length (urls b)"
        by (simp add: AtProgress eval_nat_numeral)
      finally show ?thesis
        using progress w by simp
    qed
    with i show ?thesis
      by (simp add: goroutine_step_def AtProgress)
  qed (use i t at in \<open>simp_all add: goroutine_step_def split: option.splits\<close>)
qed

lemma never_stuck:
  assumes inv: "invariant b s" and cap: "urls b \<noteq> [] \<longrightarrow> 0 < Concurrency (config b)"
    and returns: "\<forall>i<length (urls b). task b i \<noteq> None"
    and results: "\<forall>k<length (urls b). resultAccepted b k"
    and progress: "progressWanted b \<longrightarrow> (\<forall>k<length (urls b). progressAccepted b k)"
    and running: "main s \<noteq> Returned"
  shows "enabled b s \<noteq> []"
proof (cases "main s = Spawning")
  case False
  with running show ?thesis
    by (intro enabled_Main) (cases "main s"; simp add: main_step_def)
next
  case True
  let ?gs = "goroutines s"
  note move = goroutine_can_move [OF inv returns results progress]
  show ?thesis
  proof (cases "length ?gs < length (urls b) \<or> list_all (\<lambda>pc. pc = Exited) ?gs")
    case True
    with \<open>main s = Spawning\<close> show ?thesis
      by (intro enabled_Main) (auto simp: main_step_def)
  next
    case False
    then have waiting: "\<not> list_all (\<lambda>pc. pc = Exited) ?gs"
      by simp
    show ?thesis
    proof (cases "completedMutex s")
      case True
      with inv have "at_least 7 ?gs < at_least 4 ?gs"
        by (simp add: invariant_def)
      from at_least_gap [OF this] obtain i where i: "i < length ?gs"
        "4 \<le> rank (?gs ! i)" "rank (?gs ! i) < 7"
        by blast
      then have "goroutine_step b i s \<noteq> None"
        by (intro move) simp_all
      with i(1) show ?thesis
        by (rule enabled_Goroutine)
    next
      case free: False
      show ?thesis
      proof (cases "\<forall>i<length ?gs. rank (?gs ! i) = 0 \<or> rank (?gs ! i) = 9")
        case False
        then obtain i where i: "i < length ?gs" "rank (?gs ! i) \<noteq> 0" "rank (?gs ! i) \<noteq> 9"
          by blast
        with free have "goroutine_step b i s \<noteq> None"
          by (intro move) simp_all
        with i(1) show ?thesis
          by (rule enabled_Goroutine)
      next
        case True
        from waiting all_exited [of ?gs] obtain i where i: "i < length ?gs" "rank (?gs ! i) \<noteq> 9"
          by blast
        with True have at: "?gs ! i = AtSemaphore"
          by (cases "?gs ! i") auto
        from no_slot_held [OF True] inv have "semaphore s = 0"
          by (simp add: invariant_def)
        moreover from inv i(1) have "urls b \<noteq> []"
          by (auto simp: invariant_def)
        ultimately have "goroutine_step b i s \<noteq> None"
          using at i(1) cap by (simp add: goroutine_step_def)
        with i(1) show ?thesis
          by (rule enabled_Goroutine)
      qed
    qed
  qed
qed

lemma returned_iff_done:
  assumes "invariant b s"
  shows "main s = Returned \<longleftrightarrow> remaining b s = 0"
proof
  assume r: "main s = Returned"
  with assms have n: "length (goroutines s) = length (urls b)"
    and e: "at_least 9 (goroutines s) = length (goroutines s)"
    by (simp_all add: invariant_def)
  from e have "list_all (\<lambda>pc. pc = Exited) (goroutines s)"
    by (simp only: at_least_9_all)
  then have "sum_list (map (\<lambda>pc. 9 - rank pc) (goroutines s)) = 0"
    by (rule exited_no_steps_left)
  with r n show "remaining b s = 0"
    by (simp add: remaining_def steps_left_def)
next
  assume "remaining b s = 0"
  then have "steps_left (main s) = 0"
    by (simp add: remaining_def)
  then show "main s = Returned"
    by (cases "main s") (simp_all add: steps_left_def)
qed

lemma closed_all_done:
  assumes inv: "invariant b s" and closed: "main s \<noteq> Spawning"
  shows "all_done b s"
proof -
  from inv closed have n: "length (goroutines s) = length (urls b)"
    and e: "at_least 9 (goroutines s) = length (goroutines s)"
    by (simp_all add: invariant_def)
  from e have ex: "list_all (\<lambda>pc. pc = Exited) (goroutines s)"
    by (simp only: at_least_9_all)
  note chain = at_least_chain [of "goroutines s"]
  from n e chain have c: "at_least 3 (goroutines s) = length (urls b)"
    "at_least 6 (goroutines s) = length (urls b)"
    by simp_all
  from inv have "length (resultChan s) = at_least 3 (goroutines s)"
    "progressChan s
      = (if progressWanted b then map int [1..<Suc (at_least 6 (goroutines s))] else [])"
    "mset (map Some (resultChan s)) = image_mset (task_result b) (mset (senders (goroutines s)))"
    by (simp_all add: invariant_def)
  with n ex c senders_all [OF ex] show ?thesis
    by (simp add: all_done_def)
qed

lemma CheckURLs_results:
  "CheckURLs b schedule = Inr (Some s) \<Longrightarrow>
   Some ` set (resultChan s) \<subseteq> task_result b ` {..<length (urls b)}"
proof -
  assume "CheckURLs b schedule = Inr (Some s)"
  then obtain start where start: "CheckURLs_start b = Inr start"
    and run: "run b schedule start = Some s"
    by (auto simp: CheckURLs_def split: sum.splits)
  from start_invariant [OF start] run_invariant [OF _ run] have "invariant b s"
    by simp
  then show ?thesis
    by (simp add: invariant_def)
qed

lemma run_append:
  "run b (xs @ ys) s = (case run b xs s of None \<Rightarrow> None | Some s' \<Rightarrow> run b ys s')"
  by (induction xs arbitrary: s) (simp_all split: option.splits)

lemma run_completes:
  assumes cap: "urls b \<noteq> [] \<longrightarrow> 0 < Concurrency (config b)"
    and returns: "\<forall>i<length (urls b). task b i \<noteq> None"
    and results: "\<forall>k<length (urls b). resultAccepted b k"
    and progress: "progressWanted b \<longrightarrow> (\<forall>k<length (urls b). progressAccepted b k)"
  shows "invariant b s \<Longrightarrow> \<exists>rest final. run b rest s = Some final \<and> main final = Returned"
proof (induction "remaining b s" arbitrary: s)
  case 0
  then have "main s = Returned"
    by (simp add: returned_iff_done)
  then have "run b [] s = Some s \<and> main s = Returned"
    by simp
  then show ?case
    by blast
next
  case (Suc n)
  from Suc.hyps(2) Suc.prems have "main s \<noteq> Returned"
    by (simp add: returned_iff_done)
  from never_stuck [OF Suc.prems cap returns results progress this]
  obtain c where "step b c s \<noteq> None"
    unfolding enabled_def filter_empty_conv by blast
  then obtain s1 where s1: "step b c s = Some s1"
    by auto
  from step_invariant [OF Suc.prems s1] Suc.hyps(2) have "invariant b s1" "n = remaining b s1"
    by simp_all
  from Suc.hyps(1) [OF this(2,1)] obtain rest final
    where "run b rest s1 = Some final" "main final = Returned"
    by blast
  with s1 have "run b (c # rest) s = Some final \<and> main final = Returned"
    by simp
  then show ?case
    by blast
qed

lemma sent_by_task:
  assumes "Some ` set sent \<subseteq> task_result b ` {..<n}"
  shows "\<forall>result\<in>set sent. \<exists>i<n. task_result b i = Some result"
proof
  fix result
  assume "result \<in> set sent"
  then have "Some result \<in> Some ` set sent"
    by (rule imageI)
  with assms have "Some result \<in> task_result b ` {..<n}"
    by (rule subsetD)
  then obtain i where "i \<in> {..<n}" "Some result = task_result b i"
    by (rule imageE)
  then have "i < n \<and> task_result b i = Some result"
    by simp
  then show "\<exists>i<n. task_result b i = Some result"
    by blast
qed

text \<open>
  C4 (as amended). For every batch of N URLs under a configuration with concurrency at
  least 1 (or of no URL at all, when the concurrency may be 0), in which the check of
  every URL returns and the channels of the caller accept the N values sent on each, and
  for every schedule of the goroutines: the run takes 10 N + 3 steps in all and has
  returned exactly when it has taken them; before that some goroutine can always move,
  and the run can be continued until the call returns; at most N results have been sent,
  each the result of the check of one of the URLs; the progress values sent so far are
  1, 2, ... in order (none when the caller gave no progress channel); a channel is
  closed, and the call returns, only when every goroutine is gone, N results were sent,
  the result of the check of each URL once, and the progress values are 1, ..., N; and
  when the call has returned the result channel is closed, and so is the progress channel
  if there is one.
\<close>

theorem CheckURLs_streams:
  assumes "urls b \<noteq> [] \<longrightarrow> 0 < Concurrency (config b)"
    and "\<forall>i<length (urls b). task b i \<noteq> None"
    and "\<forall>k<length (urls b). resultAccepted b k"
    and "progressWanted b \<longrightarrow> (\<forall>k<length (urls b). progressAccepted b k)"
    and "CheckURLs b schedule = Inr (Some s)"
  shows "length schedule + remaining b s = 10 * length (urls b) + 3
     \<and> (main s = Returned \<longleftrightarrow> length schedule = 10 * length (urls b) + 3)
     \<and> (main s \<noteq> Returned \<longrightarrow> enabled b s \<noteq> [])
     \<and> (\<exists>rest final. CheckURLs b (schedule @ rest) = Inr (Some final) \<and> main final = Returned)
     \<and> length (resultChan s) \<le> length (urls b)
     \<and> (\<forall>result\<in>set (resultChan s). \<exists>i<length (urls b). task_result b i = Some result)
     \<and> progressChan s
         = (if progressWanted b then map int [1..<Suc (length (progressChan s))] else [])
     \<and> (resultClosed s \<or> progressClosed s \<or> main s = Returned \<longrightarrow> all_done b s)
     \<and> (main s = Returned \<longrightarrow> resultClosed s \<and> (progressClosed s \<longleftrightarrow> progressWanted b))"
proof -
  from assms(5) obtain start where start: "CheckURLs_start b = Inr start"
    and run: "run b schedule start = Some s"
    by (auto simp: CheckURLs_def split: sum.splits)
  from start_invariant [OF start] run_invariant [OF _ run]
  have inv: "invariant b s" and len: "length schedule + remaining b s = 10 * length (urls b) + 3"
    by simp_all
  from returned_iff_done [OF inv] len
  have ret: "main s = Returned \<longleftrightarrow> length schedule = 10 * length (urls b) + 3"
    by auto
  have live: "main s \<noteq> Returned \<longrightarrow> enabled b s \<noteq> []"
    using never_stuck [OF inv assms(1-4)] by simp
  from run_completes [OF assms(1-4) inv] obtain rest final
    where "run b rest s = Some final" "main final = Returned"
    by blast
  with start run have "CheckURLs b (schedule @ rest) = Inr (Some final) \<and> main final = Returned"
    by (simp add: CheckURLs_def run_append)
  then have complete:
    "\<exists>rest final. CheckURLs b (schedule @ rest) = Inr (Some final) \<and> main final = Returned"
    by blast
  note chain = at_least_chain [of "goroutines s"]
  from inv chain have res: "length (resultChan s) \<le> length (urls b)"
    by (simp add: invariant_def)
  from inv have "Some ` set (resultChan s) \<subseteq> task_result b ` {..<length (urls b)}"
    by (simp add: invariant_def)
  then have from_task:
    "\<forall>result\<in>set (resultChan s). \<exists>i<length (urls b). task_result b i = Some result"
    by (rule sent_by_task)
  from inv have prog: "progressChan s
      = (if progressWanted b then map int [1..<Suc (length (progressChan s))] else [])"
    by (simp add: invariant_def)
  from inv have "main s \<noteq> Spawning" if "resultClosed s \<or> progressClosed s \<or> main s = Returned"
    using that by (auto simp: invariant_def)
  then have closing: "resultClosed s \<or> progressClosed s \<or> main s = Returned \<longrightarrow> all_done b s"
    using closed_all_done [OF inv] by blast
  from inv have fin: "main s = Returned \<longrightarrow> resultClosed s \<and> (progressClosed s \<longleftrightarrow> progressWanted b)"
    by (simp add: invariant_def)
  from len ret live complete res from_task prog closing fin show ?thesis
    by (intro conjI)
qed

lemma starved_check: "task starved 0 = None"
proof -
  have "waitForRateLimits (DefaultConfig\<lparr>GlobalRate := 0\<rparr>) obs = None" for obs
    by (simp add: waitForRateLimits_def waitForRateLimit_no_limit)
  then have "CheckURL_call (DefaultConfig\<lparr>GlobalRate := 0\<rparr>)
      (answer (Response 200 ''200 OK'') Second) u = None" for u
    by (simp add: CheckURL_call_def answer_def)
  then show ?thesis
    unfolding task_def CheckURLWithRetry_def
    by (subst retry_loop.simps) (simp add: starved_def one_url_def DefaultConfig_def)
qed

text \<open>
  Witness for C4: two URLs, one at a time; the second goroutine runs first. The call
  returns after 23 steps with 2 results sent, progress 1, 2 and both channels closed.
\<close>

theorem CheckURLs_streams_witness:
  "map_sum id (map_option (observe two_urls))
     (CheckURLs two_urls ([Main, Main] @ turn 1 @ turn 0 @ [Main, Main, Main]))
   = Inr (Some (Returned, [], 2, [1, 2], True, True))"
proof -
  let ?schedule = "[Main, Main] @ turn 1 @ turn 0 @ [Main, Main, Main]"
  define final where "final =
     \<lparr>main = Returned, goroutines = [Exited, Exited], semaphore = 0,
      completed = 2, completedMutex = False,
      resultChan = [the (task_result two_urls 1), the (task_result two_urls 0)],
      progressChan = [1, 2], resultClosed = True, progressClosed = True\<rparr>"
  have run: "CheckURLs two_urls ?schedule = Inr (Some final)"
    unfolding final_def by code_simp
  have cap: "urls two_urls \<noteq> [] \<longrightarrow> 0 < Concurrency (config two_urls)"
    by (simp add: two_urls_def)
  have "task two_urls 0 \<noteq> None" "task two_urls 1 \<noteq> None"
    by code_simp+
  then have returns: "\<forall>i<length (urls two_urls). task two_urls i \<noteq> None"
    by (simp add: two_urls_def less_Suc_eq numeral_2_eq_2)
  have accepted: "\<forall>k<length (urls two_urls). resultAccepted two_urls k"
    "progressWanted two_urls \<longrightarrow> (\<forall>k<length (urls two_urls). progressAccepted two_urls k)"
    by (simp_all add: two_urls_def)
  have "enabled two_urls final = []"
    unfolding final_def
    by (simp add: enabled_def main_step_def goroutine_step_def upt_rec)
  then have seen: "observe two_urls final = (Returned, [], 2, [1, 2], True, True)"
    by (simp add: observe_def final_def)
  from CheckURLs_streams [OF cap returns accepted run] show ?thesis
    unfolding run by (simp add: seen)
qed

lemma starved_observations:
  "observations starved [Main, Goroutine 0]
     = [Inr (Some (Spawning, [Main], 0, [], False, False)),
        Inr (Some (Spawning, [Goroutine 0], 0, [], False, False)),
        Inr (Some (Spawning, [], 0, [], False, False))]"
proof -
  have b: "urls starved = [''https://example.com'']" "Concurrency (config starved) = 10"
    by (simp_all add: starved_def one_url_def DefaultConfig_def)
  show ?thesis
    by (simp add: observations_def CheckURLs_def CheckURLs_start_def observe_def enabled_def
        main_step_def goroutine_step_def b starved_check upt_rec)
qed

text \<open>
  C4 as stated fails for want of each of the four provisos. With concurrency 0 the caller
  can only start the two goroutines, neither of which can ever send on the semaphore.
  Under a global rate limit of 0 the goroutine of the one URL takes its slot and its
  check never returns. On a result channel that accepts nothing the goroutine gets as far
  as the send of its result, and on a progress channel that accepts nothing as far as the
  send of the progress value, with its result sent. In each case the steps listed are the
  only ones that can be taken, and then nothing can move: fewer than N results or
  progress values were sent and no channel is closed.
\<close>

theorem CheckURLs_deadlock_counterexample:
  "observations stuck [Main, Main]
     = [Inr (Some (Spawning, [Main], 0, [], False, False)),
        Inr (Some (Spawning, [Main], 0, [], False, False)),
        Inr (Some (Spawning, [], 0, [], False, False))]
   \<and> length (urls stuck) = 2
   \<and> observations starved [Main, Goroutine 0]
     = [Inr (Some (Spawning, [Main], 0, [], False, False)),
        Inr (Some (Spawning, [Goroutine 0], 0, [], False, False)),
        Inr (Some (Spawning, [], 0, [], False, False))]
   \<and> observations unread [Main, Goroutine 0, Goroutine 0]
     = [Inr (Some (Spawning, [Main], 0, [], False, False)),
        Inr (Some (Spawning, [Goroutine 0], 0, [], False, False)),
        Inr (Some (Spawning, [Goroutine 0], 0, [], False, False)),
        Inr (Some (Spawning, [], 0, [], False, False))]
   \<and> observations unread_progress (Main # replicate 5 (Goroutine 0))
     = [Inr (Some (Spawning, [Main], 0, [], False, False)),
        Inr (Some (Spawning, [Goroutine 0], 0, [], False, False)),
        Inr (Some (Spawning, [Goroutine 0], 0, [], False, False)),
        Inr (Some (Spawning, [Goroutine 0], 0, [], False, False)),
        Inr (Some (Spawning, [Goroutine 0], 1, [], False, False)),
        Inr (Some (Spawning, [Goroutine 0], 1, [], False, False)),
        Inr (Some (Spawning, [], 1, [], False, False))]
   \<and> length (urls starved) = 1 \<and> length (urls unread) = 1
   \<and> length (urls unread_progress) = 1"
proof -
  have "observations stuck [Main, Main]
     = [Inr (Some (Spawning, [Main], 0, [], False, False)),
        Inr (Some (Spawning, [Main], 0, [], False, False)),
        Inr (Some (Spawning, [], 0, [], False, False))]"
    by code_simp
  moreover have "observations unread [Main, Goroutine 0, Goroutine 0]
     = [Inr (Some (Spawning, [Main], 0, [], False, False)),
        Inr (Some (Spawning, [Goroutine 0], 0, [], False, False)),
        Inr (Some (Spawning, [Goroutine 0], 0, [], False, False)),
        Inr (Some (Spawning, [], 0, [], False, False))]"
    by code_simp
  moreover have "observations unread_progress (Main # replicate 5 (Goroutine 0))
     = [Inr (Some (Spawning, [Main], 0, [], False, False)),
        Inr (Some (Spawning, [Goroutine 0], 0, [], False, False)),
        Inr (Some (Spawning, [Goroutine 0], 0, [], False, False)),
        Inr (Some (Spawning, [Goroutine 0], 0, [], False, False)),
        Inr (Some (Spawning, [Goroutine 0], 1, [], False, False)),
        Inr (Some (Spawning, [Goroutine 0], 1, [], False, False)),
        Inr (Some (Spawning, [], 1, [], False, False))]"
    by code_simp
  moreover have "length (urls stuck) = 2" "length (urls starved) = 1"
    "length (urls unread) = 1" "length (urls unread_progress) = 1"
    by (simp_all add: stuck_def two_urls_def starved_def unread_def unread_progress_def
        one_url_def)
  ultimately show ?thesis
    using starved_observations by simp
qed

section \<open>The invariant of results\<close>

text \<open>
  C6. Every result of a check, every result the retry loop returns and every result the
  dispatcher sends that has the success flag has a status code in [200,300) and no error
  kind. The converse fails: a reply with a status in [200,300) that arrives after the
  latency bound gives a result with that status code, kind \<open>timeout\<close> and no success.
\<close>

theorem success_has_2xx:
  "(Success (fst (CheckURL cfg obs targetURL)) \<longrightarrow>
      200 \<le> StatusCode (fst (CheckURL cfg obs targetURL))
      \<and> StatusCode (fst (CheckURL cfg obs targetURL)) < 300
      \<and> Error (fst (CheckURL cfg obs targetURL)) = [])
   \<and> (CheckURLWithRetry cfg env targetURL = Some (Some r, events) \<and> Success r \<longrightarrow>
      200 \<le> StatusCode r \<and> StatusCode r < 300 \<and> Error r = [])
   \<and> (CheckURLs b schedule = Inr (Some s) \<and> Some r' \<in> set (resultChan s) \<and> Success r' \<longrightarrow>
      200 \<le> StatusCode r' \<and> StatusCode r' < 300 \<and> Error r' = [])
   \<and> (url_Parse obs = Inr domain \<and> newRequest obs = None
       \<and> fst (clientDo (server obs) targetURL 0) = Inr (code, status)
       \<and> 200 \<le> code \<and> code < 300 \<and> MaxLatency cfg <s responseTime obs \<longrightarrow>
      \<not> Success (fst (CheckURL cfg obs targetURL))
      \<and> StatusCode (fst (CheckURL cfg obs targetURL)) = code
      \<and> Error (fst (CheckURL cfg obs targetURL)) = ''timeout'')"
proof -
  have retry: "200 \<le> StatusCode x \<and> StatusCode x < 300 \<and> Error x = []"
    if "CheckURLWithRetry c e u = Some (Some x, evs)" "Success x" for c e u x evs
    using CheckURLWithRetry_result [OF that(1)] that(2) CheckURL_success by blast
  have batch: "200 \<le> StatusCode r' \<and> StatusCode r' < 300 \<and> Error r' = []"
    if "CheckURLs b schedule = Inr (Some s)" "Some r' \<in> set (resultChan s)" "Success r'"
  proof -
    from sent_by_task [OF CheckURLs_results [OF that(1)]] that(2)
    obtain i where "task_result b i = Some (Some r')"
      by blast
    then obtain evs where
      "CheckURLWithRetry (config b) (envs b i) (urls b ! i) = Some (Some r', evs)"
      by (auto simp: task_result_def task_def)
    from retry [OF this that(3)] show ?thesis .
  qed
  have late: "\<not> Success (fst (CheckURL cfg obs targetURL))
      \<and> StatusCode (fst (CheckURL cfg obs targetURL)) = code
      \<and> Error (fst (CheckURL cfg obs targetURL)) = ''timeout''"
    if "url_Parse obs = Inr domain" "newRequest obs = None"
      "fst (clientDo (server obs) targetURL 0) = Inr (code, status)"
      "MaxLatency cfg <s responseTime obs"
    using that by (auto simp: CheckURL_def Let_def split: prod.splits sum.splits)
  from CheckURL_success [of cfg obs targetURL] retry [of cfg env targetURL r events] batch late
  show ?thesis
    by blast
qed

text \<open>
  Witness for C6: a 204 within the bound, and a 200 after 31 seconds under a bound of 30.
\<close>

theorem success_has_2xx_witness:
  "Success (fst (CheckURL DefaultConfig (answer (Response 204 ''204 No Content'') Second)
      ''https://example.com''))
   \<and> StatusCode (fst (CheckURL DefaultConfig (answer (Response 204 ''204 No Content'') Second)
      ''https://example.com'')) = 204
   \<and> \<not> Success (fst (CheckURL DefaultConfig (answer (Response 200 ''200 OK'') (31 * Second))
      ''https://example.com''))
   \<and> StatusCode (fst (CheckURL DefaultConfig (answer (Response 200 ''200 OK'') (31 * Second))
      ''https://example.com'')) = 200
   \<and> Error (fst (CheckURL DefaultConfig (answer (Response 200 ''200 OK'') (31 * Second))
      ''https://example.com'')) = ''timeout''"
proof -
  have ok: "Success (fst (CheckURL DefaultConfig (answer (Response 204 ''204 No Content'') Second)
      ''https://example.com''))"
    "StatusCode (fst (CheckURL DefaultConfig (answer (Response 204 ''204 No Content'') Second)
      ''https://example.com'')) = 204"
    by (simp_all add: CheckURL_def answer_def clientDo_final DefaultConfig_def Second_def
        word_sless_alt)
  have late: "MaxLatency DefaultConfig <s responseTime (answer (Response 200 ''200 OK'') (31 * Second))"
    by (simp add: answer_def DefaultConfig_def Second_def word_sless_alt)
  from success_has_2xx [where cfg = DefaultConfig
      and obs = "answer (Response 200 ''200 OK'') (31 * Second)"
      and targetURL = "''https://example.com''" and domain = "''example.com''"
      and code = 200 and status = "''200 OK''"] late ok
  show ?thesis
    by (simp add: answer_facts clientDo_final)
qed

end
